theory Spec2Isabelle
  imports Main "HOL-Library.Word" "HOL-Library.Monad_Syntax"
begin

unbundle bit_operations_syntax

section \<open>Data model of parallel.c\<close>

text \<open>
  \<^verbatim>\<open>unsigned\<close> and \<^verbatim>\<open>uint32_t\<close> are 32-bit words, \<^verbatim>\<open>unsigned char\<close> is an 8-bit
  word. An \<^verbatim>\<open>int\<close> parameter is a 32-bit word read in two's complement
  (\<open>sint\<close>, \<open><s\<close>), so that the cast \<^verbatim>\<open>(unsigned)x\<close> keeps the word as it is.
\<close>

type_synonym u8 = "8 word"
type_synonym u32 = "32 word"

text \<open>Word offsets into the register window, and the sentinel of a missing pin.\<close>

definition GPSET0 :: nat where "GPSET0 = 7"
definition GPCLR0 :: nat where "GPCLR0 = 10"
definition GPLEV0 :: nat where "GPLEV0 = 13"

definition PI_INPUT :: u32 where "PI_INPUT = 0"
definition PI_OUTPUT :: u32 where "PI_OUTPUT = 1"

definition UNDEFINED :: u32 where "UNDEFINED = 0xFFFF"

text \<open>\<^verbatim>\<open>struct chipdata\<close>: seventeen \<^verbatim>\<open>unsigned\<close> fields.\<close>

record chipdata =
  d7 :: u32
  d6 :: u32
  d5 :: u32
  d4 :: u32
  d3 :: u32
  d2 :: u32
  d1 :: u32
  d0 :: u32
  rscd :: u32
  enwr :: u32
  rwrd :: u32
  protocol :: u32
  tsetup :: u32
  tclock :: u32
  tread :: u32
  tproc :: u32
  thold :: u32

text \<open>
  \<^verbatim>\<open>union chip\<close> overlays the first eleven fields with \<^verbatim>\<open>unsigned pins[11]\<close>:
  \<^verbatim>\<open>pins[0]\<close> is \<^verbatim>\<open>d7\<close>, \<^verbatim>\<open>pins[7]\<close> is \<^verbatim>\<open>d0\<close>, \<^verbatim>\<open>pins[8..10]\<close> are the control lines.
\<close>

definition pins :: "chipdata \<Rightarrow> u32 list" where
  "pins c = [d7 c, d6 c, d5 c, d4 c, d3 c, d2 c, d1 c, d0 c, rscd c, enwr c, rwrd c]"

text \<open>
  \<^verbatim>\<open>struct timespec\<close>. Its fields are signed integers of the platform and hold
  the values here as integers, \<open>tv_sec\<close> without a bound. \<open>nsec_of\<close> is the value
  \<^verbatim>\<open>t.tv_sec * (uint64_t)1000000000L + t.tv_nsec\<close> that \<^verbatim>\<open>WAIT\<close> compares. C
  takes that sum modulo \<open>2 ^ 64\<close> on every platform, the cast making all operands
  \<^verbatim>\<open>uint64_t\<close>; it is the integer sum computed here whenever that sum lies in
  \<open>[0, 2 ^ 64)\<close>, so for every monotonic time below \<open>2 ^ 64\<close> ns (584 years since
  boot), the range this model covers.
\<close>

record timespec =
  tv_sec :: int
  tv_nsec :: int

definition nsec_of :: "timespec \<Rightarrow> int" where
  "nsec_of t = tv_sec t * 1000000000 + tv_nsec t"

text \<open>
  The world outside the program: the \<open>i\<close>-th call of
  \<^verbatim>\<open>clock_gettime(CLOCK_MONOTONIC, _)\<close> returns \<open>clock e i\<close>, the \<open>i\<close>-th read of
  the pin-level register \<^verbatim>\<open>GPLEV0\<close> returns \<open>levels e i\<close>, and \<open>gpiomem e\<close> tells
  whether \<^verbatim>\<open>/dev/gpiomem\<close> can be opened and mapped (counting from 0).
  \<open>long32 e\<close> is the data model the program was compiled for: the C type \<^verbatim>\<open>long\<close>
  of \<^verbatim>\<open>tv_nsec\<close> is 32 bits wide (ILP32, a 32-bit Raspberry Pi OS) when it holds
  and 64 bits wide (LP64) otherwise.
\<close>

record env =
  clock :: "nat \<Rightarrow> timespec"
  levels :: "nat \<Rightarrow> u32"
  gpiomem :: bool
  long32 :: bool

text \<open>
  The program state: the register window \<^verbatim>\<open>gpioReg\<close>, the file-scope variables
  \<^verbatim>\<open>curchip\<close>, \<^verbatim>\<open>ttime\<close>, \<^verbatim>\<open>timing\<close>, \<^verbatim>\<open>clr\<close>, \<^verbatim>\<open>set\<close> (here \<open>set_mask\<close>), and the
  local \<^verbatim>\<open>ctime\<close> of the transfer routines (the last clock reading). The pointer
  \<^verbatim>\<open>curchip\<close> is modelled by the descriptor it points to: no method changes a
  descriptor once \<^verbatim>\<open>initialise\<close> has filled it. \<open>ticks\<close> and \<open>reads\<close> count the clock
  readings and the \<^verbatim>\<open>GPLEV0\<close> reads made so far. Three logs record what the program
  did, in order: \<open>writes\<close> holds every store to the
  register window as (word offset, value), \<open>stamps\<close> holds for every such store the
  number of clock readings taken before it, and \<open>shifts\<close> holds the shift amount of
  every \<^verbatim>\<open>1 << pin\<close> evaluated.
\<close>

record state =
  gpioReg :: "nat \<Rightarrow> u32"
  curchip :: chipdata
  ttime :: timespec
  timing :: u32
  clr :: u32
  set_mask :: u32
  ctime :: timespec
  ticks :: nat
  reads :: nat
  writes :: "(nat \<times> u32) list"
  stamps :: "nat list"
  shifts :: "nat list"

section \<open>Register access\<close>

text \<open>A store \<^verbatim>\<open>*(gpioReg + off) = v\<close>.\<close>

definition reg_write :: "nat \<Rightarrow> u32 \<Rightarrow> state \<Rightarrow> state" where
  "reg_write off v st =
     st\<lparr>gpioReg := (gpioReg st)(off := v), writes := writes st @ [(off, v)],
        stamps := stamps st @ [ticks st]\<rparr>"

text \<open>
  \<^verbatim>\<open>1 << pin\<close> with an \<^verbatim>\<open>int\<close> left operand: C defines it only while the result fits
  an \<^verbatim>\<open>int\<close>, that is for shift amounts below 31. \<open>None\<close> stands for every call that
  does not return normally: undefined behaviour, or a busy-wait that never ends.
\<close>

definition shl1 :: "u32 \<Rightarrow> state \<Rightarrow> (u32 \<times> state) option" where
  "shl1 pin st =
     (if unat pin < 31
      then Some (push_bit (unat pin) 1, st\<lparr>shifts := shifts st @ [unat pin]\<rparr>)
      else None)"

text \<open>
  One pass of the body shared by the direction loops on the local \<^verbatim>\<open>gpioBuf[3]\<close>:
  \<^verbatim>\<open>reg = pin/10; shift = (pin%10)*3;
  gpioBuf[reg] = (gpioBuf[reg] & ~(7<<shift)) | (mode<<shift);\<close>
  An index outside the three words is undefined behaviour.
\<close>

definition buf_mode :: "u32 \<Rightarrow> u32 \<Rightarrow> u32 list \<Rightarrow> u32 list option" where
  "buf_mode pin mode gpioBuf =
     (let reg = unat pin div 10; shift = (unat pin mod 10) * 3
      in if reg < 3
         then Some (gpioBuf[reg := (gpioBuf ! reg AND NOT (push_bit shift 7)) OR push_bit shift mode])
         else None)"

fun dir_loop :: "u32 \<Rightarrow> u32 list \<Rightarrow> u32 list \<Rightarrow> u32 list option" where
  "dir_loop mode [] gpioBuf = Some gpioBuf"
| "dir_loop mode (pin # ps) gpioBuf =
     (case buf_mode pin mode gpioBuf of
        None \<Rightarrow> None
      | Some gpioBuf' \<Rightarrow> dir_loop mode ps gpioBuf')"

text \<open>\<^verbatim>\<open>gpioGetMode\<close>: the 3-bit function-select field of a pin.\<close>

definition gpioGetMode :: "state \<Rightarrow> nat \<Rightarrow> u32" where
  "gpioGetMode st gpio = drop_bit ((gpio mod 10) * 3) (gpioReg st (gpio div 10)) AND 7"

section \<open>Timing gate\<close>

text \<open>
  The loop closing \<^verbatim>\<open>WAIT\<close>: read the clock until a reading is at or past \<open>ntime\<close>.
  The result is the index of that reading; the loop may run forever.
\<close>

partial_function (option) wait_loop :: "(nat \<Rightarrow> timespec) \<Rightarrow> int \<Rightarrow> nat \<Rightarrow> nat option" where
  "wait_loop clk ntime i =
     (if ntime \<le> nsec_of (clk i) then Some i else wait_loop clk ntime (Suc i))"

declare wait_loop.simps [code]

definition WAIT :: "env \<Rightarrow> state \<Rightarrow> state option" where
  "WAIT e st =
     (let ntime = nsec_of (ttime st) + uint (timing st);
          c = clock e (ticks st);
          st1 = st\<lparr>ctime := c, ticks := Suc (ticks st)\<rparr>;
          st2 = (if ntime \<le> nsec_of c then st1\<lparr>ttime := c\<rparr> else st1);
          ntime2 = (if ntime \<le> nsec_of c then nsec_of (ttime st2) + uint (timing st2) else ntime)
      in case wait_loop (clock e) ntime2 (ticks st2) of
           None \<Rightarrow> None
         | Some i \<Rightarrow> Some (st2\<lparr>ctime := clock e i, ticks := Suc i\<rparr>))"

text \<open>
  \<^verbatim>\<open>ttime.tv_nsec + timing\<close> adds a \<^verbatim>\<open>long\<close> and a \<^verbatim>\<open>uint32_t\<close>. Where \<^verbatim>\<open>long\<close> is
  32 bits wide both operands are converted to \<^verbatim>\<open>unsigned long\<close>, the sum is taken
  modulo \<open>2 ^ 32\<close> and the assignment to \<^verbatim>\<open>tv_nsec\<close> reads it back as a signed
  32-bit value. Where \<^verbatim>\<open>long\<close> is 64 bits wide \<^verbatim>\<open>timing\<close> is converted to \<^verbatim>\<open>long\<close>
  and the sum is the integer sum (it overflows only from \<open>2 ^ 63\<close>).
\<close>

definition long_add :: "bool \<Rightarrow> int \<Rightarrow> u32 \<Rightarrow> int" where
  "long_add l32 x t = (if l32 then sint ((word_of_int x :: u32) + t) else x + uint t)"

definition SET :: "env \<Rightarrow> state \<Rightarrow> state" where
  "SET e st =
     (let t1 = (ttime st)\<lparr>tv_nsec := long_add (long32 e) (tv_nsec (ttime st)) (timing st)\<rparr>;
          t2 = (if 1000000000 \<le> tv_nsec t1
                then t1\<lparr>tv_nsec := tv_nsec t1 - 1000000000, tv_sec := tv_sec t1 + 1\<rparr>
                else t1)
      in st\<lparr>ttime := t2\<rparr>)"

section \<open>Transfer engine\<close>

text \<open>\<^verbatim>\<open>if(curchip->data.d0 == UNDEFINED) bpc=4; else bpc=8;\<close>\<close>

definition bits_per_cycle :: "chipdata \<Rightarrow> nat" where
  "bits_per_cycle c = (if d0 c = UNDEFINED then 4 else 8)"

text \<open>
  The loops \<^verbatim>\<open>for (k=0; k<bpc; k++)\<close> and \<^verbatim>\<open>for (i=0; i<bpc; i++)\<close> visit
  \<^verbatim>\<open>pins[0]\<close> to \<^verbatim>\<open>pins[bpc-1]\<close> in order; they are recursions over that list.
\<close>

definition data_pins :: "chipdata \<Rightarrow> u32 list" where
  "data_pins c = take (bits_per_cycle c) (pins c)"

text \<open>Lines 309 to 314: the masks of one phase, most significant bit first.\<close>

fun mask_loop :: "u32 list \<Rightarrow> u8 \<Rightarrow> state \<Rightarrow> (u8 \<times> state) option" where
  "mask_loop [] datum st = Some (datum, st)"
| "mask_loop (pin # ps) datum st =
     do {
       (b, st1) \<leftarrow> shl1 pin st;
       mask_loop ps (push_bit 1 datum)
         (if datum AND 0x80 \<noteq> 0 then st1\<lparr>set_mask := set_mask st1 OR b\<rparr>
          else st1\<lparr>clr := clr st1 OR b\<rparr>)
     }"

text \<open>
  Lines 305 to 337: one phase, the body of \<^verbatim>\<open>for (j=8/bpc; j>0; j--)\<close>. It returns
  the datum shifted past the bits it has sent.
\<close>

definition write_phase :: "env \<Rightarrow> u32 \<Rightarrow> nat \<Rightarrow> u8 \<Rightarrow> state \<Rightarrow> (u8 \<times> state) option" where
  "write_phase e clk j datum st =
     do {
       let c = curchip st;
       let s1 = st\<lparr>clr := 0, set_mask := 0\<rparr>;
       let s2 = (if protocol c = 6800 then s1\<lparr>set_mask := clk\<rparr> else s1);
       let s3 = (if protocol c = 8080 then s2\<lparr>clr := clk\<rparr> else s2);
       (datum', s4) \<leftarrow> mask_loop (data_pins c) datum s3;
       s5 \<leftarrow> WAIT e s4;
       let s6 = (if protocol c = 6800
                 then reg_write GPSET0 (set_mask s5) (reg_write GPCLR0 (clr s5) s5) else s5);
       let s7 = (if protocol c = 8080
                 then reg_write GPCLR0 (clr s6) (reg_write GPSET0 (set_mask s6) s6) else s6);
       let s8 = (SET e s7)\<lparr>timing := tclock c\<rparr>;
       s9 \<leftarrow> WAIT e s8;
       let s10 = (if protocol c = 6800 then reg_write GPCLR0 clk s9 else s9);
       let s11 = (if protocol c = 8080 then reg_write GPSET0 clk s10 else s10);
       let s12 = SET e s11;
       Some (datum', if j = 1 then s12\<lparr>timing := tproc c\<rparr> else s12\<lparr>timing := tclock c\<rparr>)
     }"

text \<open>Lines 303 to 338: the phases of one byte, \<open>j\<close> counting down from \<^verbatim>\<open>8/bpc\<close>.\<close>

fun write_phases :: "env \<Rightarrow> u32 \<Rightarrow> nat \<Rightarrow> u8 \<Rightarrow> state \<Rightarrow> (u8 \<times> state) option" where
  "write_phases e clk 0 datum st = Some (datum, st)"
| "write_phases e clk (Suc j) datum st =
     do {
       (datum', s1) \<leftarrow> write_phase e clk (Suc j) datum st;
       write_phases e clk j datum' s1
     }"

text \<open>Lines 300 to 339: the bytes \<^verbatim>\<open>datapos[0]\<close> to \<^verbatim>\<open>datapos[datanum-1]\<close>.\<close>

fun write_bytes :: "env \<Rightarrow> u32 \<Rightarrow> u8 list \<Rightarrow> state \<Rightarrow> state option" where
  "write_bytes e clk [] st = Some st"
| "write_bytes e clk (datum # ds) st =
     do {
       (datum', s1) \<leftarrow> write_phases e clk (8 div bits_per_cycle (curchip st)) datum st;
       write_bytes e clk ds s1
     }"

text \<open>The three stores \<^verbatim>\<open>gpioReg[0..2] = gpioBuf[0..2]\<close>.\<close>

definition commit_buf :: "u32 list \<Rightarrow> state \<Rightarrow> state" where
  "commit_buf gpioBuf st =
     reg_write 2 (gpioBuf ! 2) (reg_write 1 (gpioBuf ! 1) (reg_write 0 (gpioBuf ! 0) st))"

text \<open>The two stores \<^verbatim>\<open>*(gpioReg + GPCLR0) = clr; *(gpioReg + GPSET0) = set;\<close>\<close>

definition commit_masks :: "state \<Rightarrow> state" where
  "commit_masks st = reg_write GPSET0 (set_mask st) (reg_write GPCLR0 (clr st) st)"

definition writeparallel :: "env \<Rightarrow> u8 list \<Rightarrow> state \<Rightarrow> state option" where
  "writeparallel e datapos st =
     do {
       let c = curchip st;
       let gpioBuf = [gpioReg st 0, gpioReg st 1, gpioReg st 2];
       gpioBuf1 \<leftarrow> dir_loop PI_OUTPUT (data_pins c) gpioBuf;
       s1 \<leftarrow> WAIT e st;
       let s2 = commit_masks (commit_buf gpioBuf1 s1);
       let s3 = (SET e s2)\<lparr>timing := tsetup c\<rparr>;
       (clk, s4) \<leftarrow> shl1 (enwr c) s3;
       s5 \<leftarrow> write_bytes e clk datapos s4;
       gpioBuf2 \<leftarrow> dir_loop PI_INPUT (data_pins c) gpioBuf1;
       Some (commit_buf gpioBuf2 s5)
     }"

text \<open>Lines 234 to 238: one sample shifted into \<^verbatim>\<open>value\<close>, first pin first.\<close>

fun sample_loop :: "u32 list \<Rightarrow> u32 \<Rightarrow> u8 \<Rightarrow> state \<Rightarrow> (u8 \<times> state) option" where
  "sample_loop [] readings val st = Some (val, st)"
| "sample_loop (pin # ps) readings val st =
     do {
       (b, st1) \<leftarrow> shl1 pin st;
       sample_loop ps readings
         (if 0 < readings AND b then push_bit 1 val OR 1 else push_bit 1 val) st1
     }"

text \<open>Lines 224 to 246: one phase of a read, the body of the loop over \<open>j\<close>.\<close>

definition read_phase :: "env \<Rightarrow> u32 \<Rightarrow> nat \<Rightarrow> u8 \<Rightarrow> state \<Rightarrow> (u8 \<times> state) option" where
  "read_phase e clk j val st =
     do {
       let c = curchip st;
       s1 \<leftarrow> WAIT e st;
       let s2 = (if protocol c = 6800 then reg_write GPSET0 clk s1 else s1);
       let s3 = (if protocol c = 8080 then reg_write GPCLR0 clk s2 else s2);
       let s4 = (SET e s3)\<lparr>timing := tread c\<rparr>;
       s5 \<leftarrow> WAIT e s4;
       let readings = levels e (reads s5);
       let s6 = s5\<lparr>reads := Suc (reads s5), timing := tclock c\<rparr>;
       (val', s7) \<leftarrow> sample_loop (data_pins c) readings val s6;
       s8 \<leftarrow> WAIT e s7;
       let s9 = (if protocol c = 6800 then reg_write GPCLR0 clk s8 else s8);
       let s10 = (if protocol c = 8080 then reg_write GPSET0 clk s9 else s9);
       let s11 = SET e s10;
       let s12 = (if j = 1 then s11\<lparr>timing := tproc c\<rparr> else s11\<lparr>timing := tclock c\<rparr>);
       Some (val', if timing s12 < thold c then s12\<lparr>timing := thold c\<rparr> else s12)
     }"

text \<open>Lines 222 to 247: the phases of one byte read.\<close>

fun read_phases :: "env \<Rightarrow> u32 \<Rightarrow> nat \<Rightarrow> u8 \<Rightarrow> state \<Rightarrow> (u8 \<times> state) option" where
  "read_phases e clk 0 val st = Some (val, st)"
| "read_phases e clk (Suc j) val st =
     do {
       (val', s1) \<leftarrow> read_phase e clk (Suc j) val st;
       read_phases e clk j val' s1
     }"

text \<open>Lines 219 to 249: \<^verbatim>\<open>datanum\<close> bytes, stored to \<^verbatim>\<open>datapos\<close> in order.\<close>

fun read_bytes :: "env \<Rightarrow> u32 \<Rightarrow> nat \<Rightarrow> state \<Rightarrow> (u8 list \<times> state) option" where
  "read_bytes e clk 0 st = Some ([], st)"
| "read_bytes e clk (Suc n) st =
     do {
       (val, s1) \<leftarrow> read_phases e clk (8 div bits_per_cycle (curchip st)) 0 st;
       (vals, s2) \<leftarrow> read_bytes e clk n s1;
       Some (val # vals, s2)
     }"

text \<open>
  \<^verbatim>\<open>set = set | (1 << pin)\<close> and \<^verbatim>\<open>clr = clr | (1 << pin)\<close>, as the mode selection
  of the external methods and the read/write switch of \<^verbatim>\<open>readparallel\<close> use them.
\<close>

definition or_set :: "u32 \<Rightarrow> state \<Rightarrow> state option" where
  "or_set pin st = do { (b, s1) \<leftarrow> shl1 pin st; Some (s1\<lparr>set_mask := set_mask s1 OR b\<rparr>) }"

definition or_clr :: "u32 \<Rightarrow> state \<Rightarrow> state option" where
  "or_clr pin st = do { (b, s1) \<leftarrow> shl1 pin st; Some (s1\<lparr>clr := clr s1 OR b\<rparr>) }"

text \<open>
  \<^verbatim>\<open>readparallel\<close>. The local \<^verbatim>\<open>clk\<close> is assigned only under protocol 6800 or 8080
  and is read only under the same tests; before the assignment it is taken as 0.
\<close>

definition readparallel :: "env \<Rightarrow> nat \<Rightarrow> state \<Rightarrow> (u8 list \<times> state) option" where
  "readparallel e datanum st =
     do {
       let c = curchip st;
       s1 \<leftarrow> (if protocol c = 6800 then or_set (rwrd c) st else Some st);
       s2 \<leftarrow> WAIT e s1;
       let s3 = (SET e (commit_masks s2))\<lparr>timing := tsetup c\<rparr>;
       (clk1, s4) \<leftarrow> (if protocol c = 6800 then shl1 (enwr c) s3 else Some (0, s3));
       (clk, s5) \<leftarrow> (if protocol c = 8080 then shl1 (rwrd c) s4 else Some (clk1, s4));
       (vals, s6) \<leftarrow> read_bytes e clk datanum s5;
       let s7 = s6\<lparr>clr := 0, set_mask := 0\<rparr>;
       s8 \<leftarrow> (if protocol c = 6800 then or_clr (rwrd c) s7 else Some s7);
       Some (vals, commit_masks s8)
     }"

section \<open>External methods\<close>

text \<open>The seventeen \<^verbatim>\<open>int\<close> parameters of \<^verbatim>\<open>initialise\<close>.\<close>

record init_args =
  arg_d7 :: u32
  arg_d6 :: u32
  arg_d5 :: u32
  arg_d4 :: u32
  arg_d3 :: u32
  arg_d2 :: u32
  arg_d1 :: u32
  arg_d0 :: u32
  arg_rscd :: u32
  arg_enwr :: u32
  arg_rwrd :: u32
  arg_protocol :: u32
  arg_tsetup :: u32
  arg_tclock :: u32
  arg_tread :: u32
  arg_tproc :: u32
  arg_thold :: u32

text \<open>\<^verbatim>\<open>if((x>27) || (x<0)) field = UNDEFINED; else field = (unsigned)x;\<close>\<close>

definition pin_or_undefined :: "u32 \<Rightarrow> u32" where
  "pin_or_undefined x = (if 27 <s x \<or> x <s 0 then UNDEFINED else x)"

text \<open>Lines 373 to 394: the descriptor that \<^verbatim>\<open>initialise\<close> fills in.\<close>

definition make_chip :: "init_args \<Rightarrow> chipdata" where
  "make_chip a =
     \<lparr>d7 = arg_d7 a, d6 = arg_d6 a, d5 = arg_d5 a, d4 = arg_d4 a,
      d3 = pin_or_undefined (arg_d3 a), d2 = pin_or_undefined (arg_d2 a),
      d1 = pin_or_undefined (arg_d1 a), d0 = pin_or_undefined (arg_d0 a),
      rscd = arg_rscd a, enwr = arg_enwr a, rwrd = pin_or_undefined (arg_rwrd a),
      protocol = arg_protocol a, tsetup = arg_tsetup a, tclock = arg_tclock a,
      tread = arg_tread a, tproc = arg_tproc a, thold = arg_thold a\<rparr>"

text \<open>\<^verbatim>\<open>*(gpioReg + off) = (1 << pin);\<close>\<close>

definition write_bit :: "nat \<Rightarrow> u32 \<Rightarrow> state \<Rightarrow> state option" where
  "write_bit off pin st = do { (b, s1) \<leftarrow> shl1 pin st; Some (reg_write off b s1) }"

text \<open>
  \<^verbatim>\<open>initialise\<close> returns \<^verbatim>\<open>NULL\<close> (here the inner \<open>None\<close>) when the register window
  cannot be mapped. The two direction loops skip the pins that are \<^verbatim>\<open>UNDEFINED\<close>.
\<close>

definition initialise :: "env \<Rightarrow> init_args \<Rightarrow> state \<Rightarrow> (chipdata option \<times> state) option" where
  "initialise e a st =
     (if \<not> gpiomem e then Some (None, st)
      else do {
        let gpioBuf = [gpioReg st 0, gpioReg st 1, gpioReg st 2];
        let tempchip = make_chip a;
        s1 \<leftarrow> (if protocol tempchip = 6800 \<and> rwrd tempchip \<noteq> UNDEFINED
               then write_bit GPCLR0 (rwrd tempchip) st else Some st);
        s2 \<leftarrow> (if protocol tempchip = 6800 then write_bit GPCLR0 (enwr tempchip) s1 else Some s1);
        s3 \<leftarrow> (if protocol tempchip = 8080 \<and> rwrd tempchip \<noteq> UNDEFINED
               then write_bit GPSET0 (rwrd tempchip) s2 else Some s2);
        s4 \<leftarrow> (if protocol tempchip = 8080 then write_bit GPSET0 (enwr tempchip) s3 else Some s3);
        gpioBuf1 \<leftarrow> dir_loop PI_INPUT (filter (\<lambda>p. p \<noteq> UNDEFINED) (take 8 (pins tempchip))) gpioBuf;
        gpioBuf2 \<leftarrow> dir_loop PI_OUTPUT (filter (\<lambda>p. p \<noteq> UNDEFINED) (drop 8 (pins tempchip))) gpioBuf1;
        let s5 = commit_buf gpioBuf2 s4;
        Some (Some tempchip,
              s5\<lparr>ttime := clock e (ticks s5), ticks := Suc (ticks s5), timing := 0\<rparr>)
      })"

text \<open>
  \<^verbatim>\<open>readdata\<close> returns its \<^verbatim>\<open>int\<close> result, the bytes it stored to \<^verbatim>\<open>datapos\<close> and
  the new state; \<^verbatim>\<open>readregister\<close> its \<^verbatim>\<open>int\<close> result and the new state.
\<close>

definition readdata :: "env \<Rightarrow> chipdata \<Rightarrow> nat \<Rightarrow> state \<Rightarrow> (int \<times> u8 list \<times> state) option" where
  "readdata e tempchip datanum st =
     (let s0 = st\<lparr>curchip := tempchip\<rparr>
      in if rwrd tempchip = UNDEFINED then Some (- 1, [], s0)
         else do {
           let s1 = s0\<lparr>clr := 0, set_mask := 0\<rparr>;
           s2 \<leftarrow> (if protocol (curchip s1) = 6800 then or_set (rscd (curchip s1)) s1 else Some s1);
           s3 \<leftarrow> (if protocol (curchip s2) = 8080 then or_clr (rscd (curchip s2)) s2 else Some s2);
           (vals, s4) \<leftarrow> readparallel e datanum s3;
           Some (0, vals, s4)
         })"

definition readregister :: "env \<Rightarrow> chipdata \<Rightarrow> state \<Rightarrow> (int \<times> state) option" where
  "readregister e tempchip st =
     (let s0 = st\<lparr>curchip := tempchip\<rparr>
      in if rwrd tempchip = UNDEFINED then Some (- 1, s0)
         else do {
           let s1 = s0\<lparr>clr := 0, set_mask := 0\<rparr>;
           s2 \<leftarrow> (if protocol (curchip s1) = 6800 then or_clr (rscd (curchip s1)) s1 else Some s1);
           s3 \<leftarrow> (if protocol (curchip s2) = 8080 then or_set (rscd (curchip s2)) s2 else Some s2);
           (vals, s4) \<leftarrow> readparallel e 1 s3;
           (case vals of [datareg] \<Rightarrow> Some (uint datareg, s4) | _ \<Rightarrow> None)
         })"

definition writedata :: "env \<Rightarrow> chipdata \<Rightarrow> u8 list \<Rightarrow> state \<Rightarrow> state option" where
  "writedata e tempchip datapos st =
     do {
       let s1 = st\<lparr>curchip := tempchip, clr := 0, set_mask := 0\<rparr>;
       s2 \<leftarrow> (if protocol (curchip s1) = 6800 then or_set (rscd (curchip s1)) s1 else Some s1);
       s3 \<leftarrow> (if protocol (curchip s2) = 8080 then or_clr (rscd (curchip s2)) s2 else Some s2);
       writeparallel e datapos s3
     }"

definition writecommand :: "env \<Rightarrow> chipdata \<Rightarrow> u8 \<Rightarrow> state \<Rightarrow> state option" where
  "writecommand e tempchip datacom st =
     do {
       let s1 = st\<lparr>curchip := tempchip, clr := 0, set_mask := 0\<rparr>;
       s2 \<leftarrow> (if protocol (curchip s1) = 6800 then or_clr (rscd (curchip s1)) s1 else Some s1);
       s3 \<leftarrow> (if protocol (curchip s2) = 8080 then or_set (rscd (curchip s2)) s2 else Some s2);
       writeparallel e [datacom] s3
     }"

section \<open>Hypotheses of the results\<close>

text \<open>
  The clock keeps advancing: after every reading, every target is reached by some
  later reading. A busy-wait returns only under such a clock.
\<close>

definition clock_advances :: "env \<Rightarrow> bool" where
  "clock_advances e \<longleftrightarrow> (\<forall>i t. \<exists>j\<ge>i. t \<le> nsec_of (clock e j))"

text \<open>
  The descriptor invariant of the data model: every defined pin is in [0, 27];
  \<^verbatim>\<open>d7..d4\<close>, \<^verbatim>\<open>rscd\<close> and \<^verbatim>\<open>enwr\<close> are defined; \<^verbatim>\<open>rwrd\<close> is defined or UNUSED;
  \<^verbatim>\<open>d3..d0\<close> are all defined or all UNUSED.
\<close>

definition chip_inv :: "chipdata \<Rightarrow> bool" where
  "chip_inv c \<longleftrightarrow>
     d7 c \<le> 27 \<and> d6 c \<le> 27 \<and> d5 c \<le> 27 \<and> d4 c \<le> 27 \<and> rscd c \<le> 27 \<and> enwr c \<le> 27 \<and>
     (rwrd c \<le> 27 \<or> rwrd c = UNDEFINED) \<and>
     (d3 c \<le> 27 \<and> d2 c \<le> 27 \<and> d1 c \<le> 27 \<and> d0 c \<le> 27 \<or>
      d3 c = UNDEFINED \<and> d2 c = UNDEFINED \<and> d1 c = UNDEFINED \<and> d0 c = UNDEFINED)"

text \<open>
  A normalised \<^verbatim>\<open>timespec\<close>, and the condition under which every \<^verbatim>\<open>SET\<close> of a write
  transfer on the descriptor \<open>c\<close>, started in the state \<open>st\<close>, adds its pending delay
  exactly. Where \<^verbatim>\<open>long\<close> is 64 bits wide it asks nothing. Where \<^verbatim>\<open>long\<close> is 32
  bits wide the clock readings and the cursor are normalised, and neither the
  pending delay nor \<^verbatim>\<open>tsetup\<close>, \<^verbatim>\<open>tclock\<close>, \<^verbatim>\<open>tproc\<close> exceed one second.
\<close>

definition normalised :: "timespec \<Rightarrow> bool" where
  "normalised t \<longleftrightarrow> 0 \<le> tv_nsec t \<and> tv_nsec t < 1000000000"

definition carry_exact :: "env \<Rightarrow> chipdata \<Rightarrow> state \<Rightarrow> bool" where
  "carry_exact e c st \<longleftrightarrow>
     (long32 e \<longrightarrow>
        (\<forall>i. normalised (clock e i)) \<and> normalised (ttime st) \<and>
        uint (timing st) \<le> 1000000000 \<and> uint (tsetup c) \<le> 1000000000 \<and>
        uint (tclock c) \<le> 1000000000 \<and> uint (tproc c) \<le> 1000000000)"

text \<open>
  The invariant in the words of C10: every defined pin is in [0, 27], and in 4-bit
  mode (\<^verbatim>\<open>d0\<close> UNUSED, the test that sets \<^verbatim>\<open>bpc\<close>) all of \<^verbatim>\<open>d3..d0\<close> are UNUSED. It
  says nothing about \<^verbatim>\<open>d3..d1\<close> where \<^verbatim>\<open>d0\<close> is defined.
\<close>

definition stated_inv :: "chipdata \<Rightarrow> bool" where
  "stated_inv c \<longleftrightarrow>
     (\<forall>p\<in>set (pins c). p = UNDEFINED \<or> p \<le> 27) \<and>
     (d0 c = UNDEFINED \<longrightarrow> d3 c = UNDEFINED \<and> d2 c = UNDEFINED \<and> d1 c = UNDEFINED)"

section \<open>Reading the logs\<close>

text \<open>
  What a store does to the output level of one pin: a 1 bit written to \<^verbatim>\<open>GPSET0\<close>
  drives the pin high, a 1 bit written to \<^verbatim>\<open>GPCLR0\<close> drives it low, every other
  store leaves it alone. \<open>pin_drives gpio ws\<close> lists the levels to which the stores
  \<open>ws\<close> drive the pin, in order.
\<close>

datatype level = Low | High

definition drive :: "nat \<Rightarrow> nat \<times> u32 \<Rightarrow> level list" where
  "drive gpio w =
     (if fst w = GPSET0 \<and> bit (snd w) gpio then [High]
      else if fst w = GPCLR0 \<and> bit (snd w) gpio then [Low]
      else [])"

definition pin_drives :: "nat \<Rightarrow> (nat \<times> u32) list \<Rightarrow> level list" where
  "pin_drives gpio ws = concat (map (drive gpio) ws)"

text \<open>The function-select field of a pin in a buffer of the words 0 to 2.\<close>

definition buf_field :: "u32 list \<Rightarrow> nat \<Rightarrow> u32" where
  "buf_field gpioBuf gpio = drop_bit ((gpio mod 10) * 3) (gpioBuf ! (gpio div 10)) AND 7"

section \<open>The loops as functions of their inputs\<close>

text \<open>
  The lemmas below show that the transfer engine computes these functions; the
  results are stated with them. \<open>mask_bits\<close> is \<open>mask_loop\<close> on a pair (clear word,
  set word), \<open>sample_bits\<close> is \<open>sample_loop\<close>; both without the log and without the
  check of the shift amount.
\<close>

fun mask_bits :: "u32 list \<Rightarrow> u8 \<Rightarrow> u32 \<times> u32 \<Rightarrow> u32 \<times> u32" where
  "mask_bits [] datum cs = cs"
| "mask_bits (pin # ps) datum cs =
     mask_bits ps (push_bit 1 datum)
       (if datum AND 0x80 \<noteq> 0 then (fst cs, snd cs OR push_bit (unat pin) 1)
        else (fst cs OR push_bit (unat pin) 1, snd cs))"

fun sample_bits :: "u32 list \<Rightarrow> u32 \<Rightarrow> u8 \<Rightarrow> u8" where
  "sample_bits [] readings val = val"
| "sample_bits (pin # ps) readings val =
     sample_bits ps readings
       (if 0 < readings AND push_bit (unat pin) 1 then push_bit 1 val OR 1 else push_bit 1 val)"

text \<open>
  The masks and the stores of one write phase for the datum left at its start, the
  stores of the \<open>j\<close> phases of one byte, and the stores of all bytes.
\<close>

definition phase_masks :: "chipdata \<Rightarrow> u32 \<Rightarrow> u8 \<Rightarrow> u32 \<times> u32" where
  "phase_masks c clk datum =
     mask_bits (data_pins c) datum
       (if protocol c = 8080 then clk else 0, if protocol c = 6800 then clk else 0)"

definition phase_stores :: "chipdata \<Rightarrow> u32 \<Rightarrow> u8 \<Rightarrow> (nat \<times> u32) list" where
  "phase_stores c clk datum =
     (if protocol c = 6800
      then [(GPCLR0, fst (phase_masks c clk datum)), (GPSET0, snd (phase_masks c clk datum)),
            (GPCLR0, clk)]
      else if protocol c = 8080
      then [(GPSET0, snd (phase_masks c clk datum)), (GPCLR0, fst (phase_masks c clk datum)),
            (GPSET0, clk)]
      else [])"

fun byte_stores :: "chipdata \<Rightarrow> u32 \<Rightarrow> nat \<Rightarrow> u8 \<Rightarrow> (nat \<times> u32) list" where
  "byte_stores c clk 0 datum = []"
| "byte_stores c clk (Suc j) datum =
     phase_stores c clk datum @ byte_stores c clk j (push_bit (bits_per_cycle c) datum)"

definition data_stores :: "chipdata \<Rightarrow> u32 \<Rightarrow> u8 list \<Rightarrow> (nat \<times> u32) list" where
  "data_stores c clk ds = concat (map (byte_stores c clk (8 div bits_per_cycle c)) ds)"



text \<open>
  The strobe bit and the stores of one read phase, the read/write bit of
  \<^verbatim>\<open>readparallel\<close>, the byte assembled from \<open>j\<close> samples starting with sample
  number \<open>r\<close>, and the bytes of a whole read.
\<close>

definition read_clk :: "chipdata \<Rightarrow> u32" where
  "read_clk c = (if protocol c = 6800 then push_bit (unat (enwr c)) 1
                 else if protocol c = 8080 then push_bit (unat (rwrd c)) 1 else 0)"

definition read_phase_stores :: "chipdata \<Rightarrow> u32 \<Rightarrow> (nat \<times> u32) list" where
  "read_phase_stores c clk =
     (if protocol c = 6800 then [(GPSET0, clk), (GPCLR0, clk)]
      else if protocol c = 8080 then [(GPCLR0, clk), (GPSET0, clk)]
      else [])"

definition rw_bit :: "chipdata \<Rightarrow> u32" where
  "rw_bit c = (if protocol c = 6800 then push_bit (unat (rwrd c)) 1 else 0)"

fun phases_value :: "env \<Rightarrow> chipdata \<Rightarrow> nat \<Rightarrow> nat \<Rightarrow> u8 \<Rightarrow> u8" where
  "phases_value e c 0 r val = val"
| "phases_value e c (Suc j) r val =
     phases_value e c j (Suc r) (sample_bits (data_pins c) (levels e r) val)"

fun bytes_values :: "env \<Rightarrow> chipdata \<Rightarrow> nat \<Rightarrow> nat \<Rightarrow> u8 list" where
  "bytes_values e c 0 r = []"
| "bytes_values e c (Suc n) r =
     phases_value e c (8 div bits_per_cycle c) r 0 #
     bytes_values e c n (r + 8 div bits_per_cycle c)"

text \<open>
  The state in which the external methods enter the transfer engine: \<^verbatim>\<open>curchip\<close>
  set, the masks holding the \<^verbatim>\<open>rscd\<close> bit as the mode demands, the shift logged.
\<close>

definition mode_bit :: "chipdata \<Rightarrow> u32 \<Rightarrow> u32" where
  "mode_bit c p = (if protocol c = p then push_bit (unat (rscd c)) 1 else 0)"

definition mode_shifts :: "chipdata \<Rightarrow> nat list" where
  "mode_shifts c = (if protocol c = 6800 \<or> protocol c = 8080 then [unat (rscd c)] else [])"

definition command_entry :: "chipdata \<Rightarrow> state \<Rightarrow> state" where
  "command_entry c st =
     st\<lparr>curchip := c, clr := mode_bit c 6800, set_mask := mode_bit c 8080,
        shifts := shifts st @ mode_shifts c\<rparr>"

definition data_entry :: "chipdata \<Rightarrow> state \<Rightarrow> state" where
  "data_entry c st =
     st\<lparr>curchip := c, clr := mode_bit c 8080, set_mask := mode_bit c 6800,
        shifts := shifts st @ mode_shifts c\<rparr>"

text \<open>
  The state in which \<^verbatim>\<open>WAIT\<close> and the byte loop of a read return (the argument itself
  where they do not return), and the relation "every store logged from \<open>st\<close> to
  \<open>st'\<close> was made once the clock had been read \<open>ticks st\<close> times".
\<close>

definition wait_end :: "env \<Rightarrow> state \<Rightarrow> state" where
  "wait_end e st = (case WAIT e st of Some s \<Rightarrow> s | None \<Rightarrow> st)"

definition read_end :: "env \<Rightarrow> u32 \<Rightarrow> nat \<Rightarrow> state \<Rightarrow> state" where
  "read_end e clk n st = (case read_bytes e clk n st of Some (vals, s) \<Rightarrow> s | None \<Rightarrow> st)"

definition stamped_from :: "state \<Rightarrow> state \<Rightarrow> bool" where
  "stamped_from st st' \<longleftrightarrow>
     ticks st \<le> ticks st' \<and> (\<exists>X. stamps st' = stamps st @ X \<and> (\<forall>t\<in>set X. ticks st \<le> t))"

text \<open>
  From \<open>st\<close> to \<open>st'\<close> the two logs grew by as many stamps as stores. \<open>tied e w st st'\<close>:
  the last store logged since \<open>st\<close> is \<open>w\<close>, no clock reading was taken after it, and
  the cursor of \<open>st'\<close> is at most the last clock reading taken before it. \<open>strobe_end\<close>
  is the store of the strobe bit \<open>clk\<close> that ends the pulse of a write phase.
\<close>

definition logs_from :: "state \<Rightarrow> state \<Rightarrow> bool" where
  "logs_from st st' \<longleftrightarrow>
     (\<exists>W X. writes st' = writes st @ W \<and> stamps st' = stamps st @ X \<and> length X = length W)"

definition tied :: "env \<Rightarrow> nat \<times> u32 \<Rightarrow> state \<Rightarrow> state \<Rightarrow> bool" where
  "tied e w st st' \<longleftrightarrow>
     0 < ticks st' \<and> nsec_of (ttime st') \<le> nsec_of (clock e (ticks st' - 1)) \<and>
     (\<exists>pre ts. writes st' = writes st @ pre @ [w] \<and>
                stamps st' = stamps st @ ts @ [ticks st'] \<and> length ts = length pre)"

definition strobe_end :: "chipdata \<Rightarrow> u32 \<Rightarrow> nat \<times> u32" where
  "strobe_end c clk = (if protocol c = 6800 then GPCLR0 else GPSET0, clk)"

section \<open>Example inputs\<close>

text \<open>
  A clock whose readings are \<open>d\<close> nanoseconds apart; an environment with that clock,
  all pins reading low and a register window that maps; the state before the first
  call; the arguments and descriptors of an 8-bit and a 4-bit 6800 display with the
  timings 60, 300, 300, 10000 and 10 ns, arguments at the borders of the pin
  range, the arguments of the 8-bit display with \<^verbatim>\<open>d3\<close> left out, and those of
  the 8-bit display with a \<^verbatim>\<open>tclock\<close> of two seconds.
\<close>

definition clock_every :: "int \<Rightarrow> nat \<Rightarrow> timespec" where
  "clock_every d i = \<lparr>tv_sec = (d * int i) div 1000000000, tv_nsec = (d * int i) mod 1000000000\<rparr>"

definition env_every :: "int \<Rightarrow> env" where
  "env_every d = \<lparr>clock = clock_every d, levels = (\<lambda>i. 0), gpiomem = True, long32 = False\<rparr>"

definition env32_every :: "int \<Rightarrow> env" where
  "env32_every d = (env_every d)\<lparr>long32 := True\<rparr>"

text \<open>
  A clock with jitter: readings at 0, 0, 10, 60, 70, 350, 10300, 10310 and 10360 ns,
  then every 10 ns. A clock of a platform with a 32-bit \<^verbatim>\<open>long\<close> that starts at 10 s
  and is read every 0.3 s.
\<close>

definition jitter_ns :: "nat \<Rightarrow> int" where
  "jitter_ns i = (if i < 9 then [0, 0, 10, 60, 70, 350, 10300, 10310, 10360] ! i
                  else 10360 + 10 * (int i - 8))"

definition jitter_env :: env where
  "jitter_env = \<lparr>clock = (\<lambda>i. \<lparr>tv_sec = jitter_ns i div 1000000000,
                                 tv_nsec = jitter_ns i mod 1000000000\<rparr>),
     levels = (\<lambda>i. 0), gpiomem = True, long32 = False\<rparr>"

definition late_env32 :: env where
  "late_env32 = \<lparr>clock = (\<lambda>i. \<lparr>tv_sec = (10000000000 + 300000000 * int i) div 1000000000,
                                 tv_nsec = (10000000000 + 300000000 * int i) mod 1000000000\<rparr>),
     levels = (\<lambda>i. 0), gpiomem = True, long32 = True\<rparr>"

definition null_chip :: chipdata where
  "null_chip = \<lparr>d7 = 0, d6 = 0, d5 = 0, d4 = 0, d3 = 0, d2 = 0, d1 = 0, d0 = 0,
     rscd = 0, enwr = 0, rwrd = 0, protocol = 0, tsetup = 0, tclock = 0, tread = 0,
     tproc = 0, thold = 0\<rparr>"

definition power_on :: state where
  "power_on = \<lparr>gpioReg = (\<lambda>off. 0), curchip = null_chip,
     ttime = \<lparr>tv_sec = 0, tv_nsec = 0\<rparr>, timing = 0, clr = 0, set_mask = 0,
     ctime = \<lparr>tv_sec = 0, tv_nsec = 0\<rparr>, ticks = 0, reads = 0, writes = [], stamps = [], shifts = []\<rparr>"

definition lcd8_args :: init_args where
  "lcd8_args = \<lparr>arg_d7 = 2, arg_d6 = 3, arg_d5 = 4, arg_d4 = 5, arg_d3 = 6, arg_d2 = 7,
     arg_d1 = 8, arg_d0 = 27, arg_rscd = 10, arg_enwr = 11, arg_rwrd = 12,
     arg_protocol = 6800, arg_tsetup = 60, arg_tclock = 300, arg_tread = 300,
     arg_tproc = 10000, arg_thold = 10\<rparr>"

definition lcd4_args :: init_args where
  "lcd4_args = lcd8_args\<lparr>arg_d3 := - 1, arg_d2 := - 1, arg_d1 := - 1, arg_d0 := - 1,
     arg_rwrd := - 1\<rparr>"

definition edge_args :: init_args where
  "edge_args = lcd8_args\<lparr>arg_d7 := 28, arg_d3 := 27, arg_d2 := 28, arg_d1 := - 1,
     arg_d0 := 65535, arg_rwrd := 28\<rparr>"

definition mixed_args :: init_args where
  "mixed_args = lcd8_args\<lparr>arg_d3 := - 1\<rparr>"

definition slow_args :: init_args where
  "slow_args = lcd8_args\<lparr>arg_tclock := 2000000000\<rparr>"

definition lcd8 :: chipdata where
  "lcd8 = \<lparr>d7 = 2, d6 = 3, d5 = 4, d4 = 5, d3 = 6, d2 = 7, d1 = 8, d0 = 27,
     rscd = 10, enwr = 11, rwrd = 12, protocol = 6800, tsetup = 60, tclock = 300,
     tread = 300, tproc = 10000, thold = 10\<rparr>"

definition lcd4 :: chipdata where
  "lcd4 = lcd8\<lparr>d3 := UNDEFINED, d2 := UNDEFINED, d1 := UNDEFINED, d0 := UNDEFINED,
     rwrd := UNDEFINED\<rparr>"

definition lcd4r :: chipdata where
  "lcd4r = lcd4\<lparr>rwrd := 12\<rparr>"

section \<open>Lemmas\<close>

subsection \<open>WAIT returns under an advancing clock\<close>

lemma wait_loop_reach:
  "i \<le> j \<Longrightarrow> ntime \<le> nsec_of (clk j) \<Longrightarrow>
   \<exists>k. wait_loop clk ntime i = Some k \<and> i \<le> k \<and> k \<le> j \<and> ntime \<le> nsec_of (clk k) \<and>
       (\<forall>m. i \<le> m \<and> m < k \<longrightarrow> nsec_of (clk m) < ntime)"
proof (induction "j - i" arbitrary: i)
  case 0
  then have "i = j" by simp
  with 0 show ?case by (subst wait_loop.simps) auto
next
  case (Suc n)
  show ?case
  proof (cases "ntime \<le> nsec_of (clk i)")
    case True
    with Suc.prems show ?thesis by (subst wait_loop.simps) auto
  next
    case False
    with Suc.prems have lt: "i < j" by (cases "i = j") auto
    with Suc.hyps(2) have "n = j - Suc i" by simp
    from Suc.hyps(1)[OF this] lt Suc.prems(2)
    obtain k where k: "wait_loop clk ntime (Suc i) = Some k" "Suc i \<le> k" "k \<le> j"
      "ntime \<le> nsec_of (clk k)" "\<forall>m. Suc i \<le> m \<and> m < k \<longrightarrow> nsec_of (clk m) < ntime"
      by auto
    have "\<forall>m. i \<le> m \<and> m < k \<longrightarrow> nsec_of (clk m) < ntime"
    proof (intro allI impI)
      fix m assume "i \<le> m \<and> m < k"
      then show "nsec_of (clk m) < ntime" using k(5) False by (cases "m = i") auto
    qed
    with k False show ?thesis by (subst wait_loop.simps) auto
  qed
qed

lemma WAIT_result:
  assumes "clock_advances e"
  shows "\<exists>k. ticks st < k \<and>
     WAIT e st = Some (st\<lparr>ttime := (if nsec_of (ttime st) + uint (timing st) \<le> nsec_of (clock e (ticks st))
                                    then clock e (ticks st) else ttime st),
                         ctime := clock e k, ticks := Suc k\<rparr>) \<and>
     (if nsec_of (ttime st) + uint (timing st) \<le> nsec_of (clock e (ticks st))
      then nsec_of (clock e (ticks st)) else nsec_of (ttime st)) + uint (timing st) \<le> nsec_of (clock e k) \<and>
     (\<forall>m. ticks st < m \<and> m < k \<longrightarrow> nsec_of (clock e m) <
        (if nsec_of (ttime st) + uint (timing st) \<le> nsec_of (clock e (ticks st))
      then nsec_of (clock e (ticks st)) else nsec_of (ttime st)) + uint (timing st))"
proof -
  let ?c = "clock e (ticks st)"
  let ?re = "nsec_of (ttime st) + uint (timing st) \<le> nsec_of ?c"
  let ?tgt = "(if ?re then nsec_of ?c else nsec_of (ttime st)) + uint (timing st)"
  from assms obtain j where j: "Suc (ticks st) \<le> j" "?tgt \<le> nsec_of (clock e j)"
    unfolding clock_advances_def by blast
  from wait_loop_reach[of "Suc (ticks st)" j ?tgt "clock e", OF j] obtain k where k:
    "wait_loop (clock e) ?tgt (Suc (ticks st)) = Some k" "Suc (ticks st) \<le> k"
    "?tgt \<le> nsec_of (clock e k)"
    "\<forall>m. Suc (ticks st) \<le> m \<and> m < k \<longrightarrow> nsec_of (clock e m) < ?tgt"
    by blast
  show ?thesis
    apply (rule exI[of _ k])
    using k by (auto simp: WAIT_def Let_def)
qed

lemma nsec_clock_every [simp]: "nsec_of (clock_every d i) = d * int i"
  by (simp add: nsec_of_def clock_every_def)

lemma nsec_of_simp [simp]: "nsec_of \<lparr>tv_sec = s, tv_nsec = n\<rparr> = s * 1000000000 + n"
  by (simp add: nsec_of_def)

lemma clock_every_advances: "0 < d \<Longrightarrow> clock_advances (env_every d)"
  unfolding clock_advances_def env_every_def
proof (intro allI)
  fix i :: nat and t :: int
  assume d: "0 < d"
  let ?j = "max i (nat t)"
  have "t \<le> int ?j" by simp
  also have "\<dots> \<le> d * int ?j" using d by (simp add: mult_le_cancel_right1)
  finally have "t \<le> nsec_of (clock \<lparr>clock = clock_every d, levels = (\<lambda>i. 0), gpiomem = True, long32 = False\<rparr> ?j)" by simp
  then show "\<exists>j\<ge>i. t \<le> nsec_of (clock \<lparr>clock = clock_every d, levels = (\<lambda>i. 0), gpiomem = True, long32 = False\<rparr> j)"
    by (intro exI[of _ ?j]) simp
qed

subsection \<open>The write transfer\<close>

lemma shl1_Some: "unat pin < 31 \<Longrightarrow>
  shl1 pin st = Some (push_bit (unat pin) 1, st\<lparr>shifts := shifts st @ [unat pin]\<rparr>)"
  by (simp add: shl1_def)

lemma mask_loop_eq:
  "\<forall>p\<in>set ps. unat p < 31 \<Longrightarrow>
   mask_loop ps datum st =
     Some (push_bit (length ps) datum,
           st\<lparr>clr := fst (mask_bits ps datum (clr st, set_mask st)),
              set_mask := snd (mask_bits ps datum (clr st, set_mask st)),
              shifts := shifts st @ map unat ps\<rparr>)"
proof (induction ps arbitrary: datum st)
  case Nil
  then show ?case by simp
next
  case (Cons p ps)
  then show ?case by (simp add: shl1_Some push_bit_push_bit)
qed

lemma sample_loop_eq:
  "\<forall>p\<in>set ps. unat p < 31 \<Longrightarrow>
   sample_loop ps readings val st =
     Some (sample_bits ps readings val, st\<lparr>shifts := shifts st @ map unat ps\<rparr>)"
proof (induction ps arbitrary: val st)
  case Nil
  then show ?case by simp
next
  case (Cons p ps)
  then show ?case by (simp add: shl1_Some)
qed

lemma WAIT_wait_end: "clock_advances e \<Longrightarrow> WAIT e st = Some (wait_end e st)"
  using WAIT_result[of e st] by (auto simp: wait_end_def)

lemma wait_end_fields [simp]:
  "gpioReg (wait_end e st) = gpioReg st"
  "curchip (wait_end e st) = curchip st"
  "timing (wait_end e st) = timing st"
  "clr (wait_end e st) = clr st"
  "set_mask (wait_end e st) = set_mask st"
  "reads (wait_end e st) = reads st"
  "writes (wait_end e st) = writes st"
  "shifts (wait_end e st) = shifts st"
  by (auto simp: wait_end_def WAIT_def Let_def split: option.splits)

lemma wait_end_ttime: "nsec_of (ttime st) \<le> nsec_of (ttime (wait_end e st))"
proof (cases "nsec_of (ttime st) + uint (timing st) \<le> nsec_of (clock e (ticks st))")
  case True
  moreover have "0 \<le> uint (timing st)" by simp
  ultimately have "nsec_of (ttime st) \<le> nsec_of (clock e (ticks st))" by linarith
  with True show ?thesis
    by (simp add: wait_end_def WAIT_def Let_def split: option.splits)
next
  case False
  then show ?thesis
    by (simp add: wait_end_def WAIT_def Let_def split: option.splits)
qed

lemma le_wait_end: "a \<le> nsec_of (ttime s) \<Longrightarrow> a \<le> nsec_of (ttime (wait_end e s))"
  using wait_end_ttime[of s e] by linarith

lemma wait_end_ctime:
  "clock_advances e \<Longrightarrow>
   nsec_of (ttime (wait_end e st)) + uint (timing st) \<le> nsec_of (ctime (wait_end e st))"
  using WAIT_result[of e st] WAIT_wait_end[of e st] by (auto simp: Let_def)

lemma SET_fields [simp]:
  "gpioReg (SET e st) = gpioReg st"
  "curchip (SET e st) = curchip st"
  "timing (SET e st) = timing st"
  "clr (SET e st) = clr st"
  "set_mask (SET e st) = set_mask st"
  "reads (SET e st) = reads st"
  "writes (SET e st) = writes st"
  "shifts (SET e st) = shifts st"
  "ticks (SET e st) = ticks st"
  "ctime (SET e st) = ctime st"
  by (simp_all add: SET_def Let_def)

lemma long_add_64 [simp]: "long_add False x t = x + uint t"
  by (simp add: long_add_def)

lemma long_add_32:
  assumes "0 \<le> x" and "x < 1000000000"
  shows "long_add True x t =
           (if x + uint t < 2147483648 then x + uint t else x + uint t - 4294967296)"
proof -
  let ?S = "x + uint t"
  have u: "uint t < 4294967296" using uint_bounded[of t] by simp
  have "(word_of_int x :: u32) + t = word_of_int x + word_of_int (uint t)" by simp
  also have "\<dots> = word_of_int ?S" by (simp only: of_int_add)
  finally have w: "(word_of_int x :: u32) + t = word_of_int ?S" .
  have s: "sint (word_of_int ?S :: u32) = signed_take_bit 31 ?S"
    using sint_sbintrunc'[of ?S, where 'a=32] by simp
  have t: "signed_take_bit 31 ?S = take_bit 32 (?S + 2147483648) - 2147483648"
    using signed_take_bit_eq_take_bit_shift[of 31 ?S] by simp
  show ?thesis
  proof (cases "?S < 2147483648")
    case True
    with assms have "take_bit 32 (?S + 2147483648) = ?S + 2147483648"
      by (simp add: take_bit_int_eq_self)
    with True show ?thesis unfolding long_add_def if_True w s t by simp
  next
    case False
    have "take_bit 32 (?S + 2147483648) = take_bit 32 (?S + 2147483648 - 4294967296)"
      using take_bit_diff[of 32 "?S + 2147483648" 4294967296] by simp
    also have "\<dots> = ?S + 2147483648 - 4294967296"
      using False assms u by (simp add: take_bit_int_eq_self)
    finally show ?thesis using False unfolding long_add_def if_True w s t by simp
  qed
qed

lemma SET_ttime:
  "ttime (SET e st) =
     (let n = long_add (long32 e) (tv_nsec (ttime st)) (timing st)
      in if 1000000000 \<le> n then \<lparr>tv_sec = tv_sec (ttime st) + 1, tv_nsec = n - 1000000000\<rparr>
         else \<lparr>tv_sec = tv_sec (ttime st), tv_nsec = n\<rparr>)"
  by (simp add: SET_def Let_def)

lemma reg_write_fields [simp]:
  "gpioReg (reg_write off v st) = (gpioReg st)(off := v)"
  "curchip (reg_write off v st) = curchip st"
  "ttime (reg_write off v st) = ttime st"
  "timing (reg_write off v st) = timing st"
  "clr (reg_write off v st) = clr st"
  "set_mask (reg_write off v st) = set_mask st"
  "reads (reg_write off v st) = reads st"
  "writes (reg_write off v st) = writes st @ [(off, v)]"
  "shifts (reg_write off v st) = shifts st"
  "ticks (reg_write off v st) = ticks st"
  "ctime (reg_write off v st) = ctime st"
  by (simp_all add: reg_write_def)

lemma length_data_pins [simp]: "length (data_pins c) = bits_per_cycle c"
  by (simp add: data_pins_def pins_def bits_per_cycle_def)

lemma write_phase_run:
  assumes "clock_advances e" and "\<forall>p\<in>set (data_pins (curchip st)). unat p < 31"
  shows "\<exists>st'. write_phase e clk j datum st = Some (push_bit (bits_per_cycle (curchip st)) datum, st') \<and>
     curchip st' = curchip st \<and> reads st' = reads st \<and>
     (\<forall>r. r \<noteq> GPSET0 \<longrightarrow> r \<noteq> GPCLR0 \<longrightarrow> gpioReg st' r = gpioReg st r) \<and>
     writes st' = writes st @ phase_stores (curchip st) clk datum \<and>
     shifts st' = shifts st @ map unat (data_pins (curchip st)) \<and>
     timing st' = (if j = 1 then tproc (curchip st) else tclock (curchip st))"
proof -
  consider "protocol (curchip st) = 6800" | "protocol (curchip st) = 8080"
    | "protocol (curchip st) \<noteq> 6800" "protocol (curchip st) \<noteq> 8080" by blast
  then show ?thesis
  proof cases
    case 1
    with assms show ?thesis
      by (simp add: write_phase_def Let_def mask_loop_eq WAIT_wait_end phase_stores_def phase_masks_def)
  next
    case 2
    with assms show ?thesis
      by (simp add: write_phase_def Let_def mask_loop_eq WAIT_wait_end phase_stores_def phase_masks_def)
  next
    case 3
    with assms show ?thesis
      by (simp add: write_phase_def Let_def mask_loop_eq WAIT_wait_end phase_stores_def phase_masks_def)
  qed
qed

lemma write_phases_run:
  assumes "clock_advances e" and "\<forall>p\<in>set (data_pins (curchip st)). unat p < 31"
  shows "\<exists>d' st'. write_phases e clk j datum st = Some (d', st') \<and>
     curchip st' = curchip st \<and> reads st' = reads st \<and>
     (\<forall>r. r \<noteq> GPSET0 \<longrightarrow> r \<noteq> GPCLR0 \<longrightarrow> gpioReg st' r = gpioReg st r) \<and>
     writes st' = writes st @ byte_stores (curchip st) clk j datum \<and>
     shifts st' = shifts st @ concat (replicate j (map unat (data_pins (curchip st)))) \<and>
     timing st' = (if j = 0 then timing st else tproc (curchip st))"
  using assms(2)
proof (induction j arbitrary: datum st)
  case 0
  then show ?case by simp
next
  case (Suc j)
  from write_phase_run[OF assms(1) Suc.prems, of clk "Suc j" datum]
  obtain s1 where s1: "write_phase e clk (Suc j) datum st =
        Some (push_bit (bits_per_cycle (curchip st)) datum, s1)"
    "curchip s1 = curchip st" "reads s1 = reads st"
    "\<forall>r. r \<noteq> GPSET0 \<longrightarrow> r \<noteq> GPCLR0 \<longrightarrow> gpioReg s1 r = gpioReg st r"
    "writes s1 = writes st @ phase_stores (curchip st) clk datum"
    "shifts s1 = shifts st @ map unat (data_pins (curchip st))"
    "timing s1 = (if Suc j = 1 then tproc (curchip st) else tclock (curchip st))"
    by blast
  have "\<forall>p\<in>set (data_pins (curchip s1)). unat p < 31" using Suc.prems s1(2) by simp
  from Suc.IH[OF this, of "push_bit (bits_per_cycle (curchip st)) datum"]
  obtain d' st' where st': "write_phases e clk j (push_bit (bits_per_cycle (curchip st)) datum) s1 = Some (d', st')"
    "curchip st' = curchip s1" "reads st' = reads s1"
    "\<forall>r. r \<noteq> GPSET0 \<longrightarrow> r \<noteq> GPCLR0 \<longrightarrow> gpioReg st' r = gpioReg s1 r"
    "writes st' = writes s1 @ byte_stores (curchip s1) clk j (push_bit (bits_per_cycle (curchip st)) datum)"
    "shifts st' = shifts s1 @ concat (replicate j (map unat (data_pins (curchip s1))))"
    "timing st' = (if j = 0 then timing s1 else tproc (curchip s1))"
    by blast
  show ?case
    apply (rule exI[of _ d'], rule exI[of _ st'])
    using s1 st' by simp
qed

lemma write_bytes_run:
  assumes "clock_advances e" and "\<forall>p\<in>set (data_pins (curchip st)). unat p < 31"
  shows "\<exists>st'. write_bytes e clk ds st = Some st' \<and>
     curchip st' = curchip st \<and> reads st' = reads st \<and>
     (\<forall>r. r \<noteq> GPSET0 \<longrightarrow> r \<noteq> GPCLR0 \<longrightarrow> gpioReg st' r = gpioReg st r) \<and>
     writes st' = writes st @ data_stores (curchip st) clk ds \<and>
     shifts st' = shifts st @
        concat (replicate (length ds * (8 div bits_per_cycle (curchip st)))
                  (map unat (data_pins (curchip st)))) \<and>
     timing st' = (if ds = [] then timing st else tproc (curchip st))"
  using assms(2)
proof (induction ds arbitrary: st)
  case Nil
  then show ?case by (simp add: data_stores_def)
next
  case (Cons d ds)
  let ?j = "8 div bits_per_cycle (curchip st)"
  have j: "?j \<noteq> 0" by (simp add: bits_per_cycle_def)
  from write_phases_run[OF assms(1) Cons.prems, of clk ?j d]
  obtain d' s1 where s1: "write_phases e clk ?j d st = Some (d', s1)"
    "curchip s1 = curchip st" "reads s1 = reads st"
    "\<forall>r. r \<noteq> GPSET0 \<longrightarrow> r \<noteq> GPCLR0 \<longrightarrow> gpioReg s1 r = gpioReg st r"
    "writes s1 = writes st @ byte_stores (curchip st) clk ?j d"
    "shifts s1 = shifts st @ concat (replicate ?j (map unat (data_pins (curchip st))))"
    "timing s1 = (if ?j = 0 then timing st else tproc (curchip st))"
    by blast
  have "\<forall>p\<in>set (data_pins (curchip s1)). unat p < 31" using Cons.prems s1(2) by simp
  from Cons.IH[OF this]
  obtain st' where st': "write_bytes e clk ds s1 = Some st'"
    "curchip st' = curchip s1" "reads st' = reads s1"
    "\<forall>r. r \<noteq> GPSET0 \<longrightarrow> r \<noteq> GPCLR0 \<longrightarrow> gpioReg st' r = gpioReg s1 r"
    "writes st' = writes s1 @ data_stores (curchip s1) clk ds"
    "shifts st' = shifts s1 @
        concat (replicate (length ds * (8 div bits_per_cycle (curchip s1)))
                  (map unat (data_pins (curchip s1))))"
    "timing st' = (if ds = [] then timing s1 else tproc (curchip s1))"
    by blast
  show ?case
    apply (rule exI[of _ st'])
    using s1 st' j by (simp add: data_stores_def replicate_add)
qed

lemma buf_mode_Some:
  "unat pin < 30 \<Longrightarrow> \<exists>b'. buf_mode pin mode b = Some b' \<and> length b' = length b"
  by (simp add: buf_mode_def Let_def)

lemma dir_loop_Some:
  "\<forall>p\<in>set ps. unat p < 30 \<Longrightarrow> \<exists>b'. dir_loop mode ps b = Some b' \<and> length b' = length b"
proof (induction ps arbitrary: b)
  case Nil
  then show ?case by simp
next
  case (Cons p ps)
  then obtain b1 where "buf_mode p mode b = Some b1" "length b1 = length b"
    using buf_mode_Some[of p mode b] by auto
  moreover from Cons obtain b' where "dir_loop mode ps b1 = Some b'" "length b' = length b1"
    by (metis list.set_intros(2))
  ultimately show ?case by simp
qed

lemma commit_buf_fields [simp]:
  "gpioReg (commit_buf b st) = (gpioReg st)(0 := b ! 0, 1 := b ! 1, 2 := b ! 2)"
  "curchip (commit_buf b st) = curchip st"
  "ttime (commit_buf b st) = ttime st"
  "timing (commit_buf b st) = timing st"
  "clr (commit_buf b st) = clr st"
  "set_mask (commit_buf b st) = set_mask st"
  "reads (commit_buf b st) = reads st"
  "writes (commit_buf b st) = writes st @ [(0, b ! 0), (1, b ! 1), (2, b ! 2)]"
  "shifts (commit_buf b st) = shifts st"
  "ticks (commit_buf b st) = ticks st"
  "ctime (commit_buf b st) = ctime st"
  by (simp_all add: commit_buf_def)

lemma commit_masks_fields [simp]:
  "gpioReg (commit_masks st) = (gpioReg st)(GPCLR0 := clr st, GPSET0 := set_mask st)"
  "curchip (commit_masks st) = curchip st"
  "ttime (commit_masks st) = ttime st"
  "timing (commit_masks st) = timing st"
  "clr (commit_masks st) = clr st"
  "set_mask (commit_masks st) = set_mask st"
  "reads (commit_masks st) = reads st"
  "writes (commit_masks st) = writes st @ [(GPCLR0, clr st), (GPSET0, set_mask st)]"
  "shifts (commit_masks st) = shifts st"
  "ticks (commit_masks st) = ticks st"
  "ctime (commit_masks st) = ctime st"
  by (simp_all add: commit_masks_def)

lemma writeparallel_run:
  assumes "clock_advances e" and "\<forall>p\<in>set (data_pins (curchip st)). unat p < 30"
    and "unat (enwr (curchip st)) < 31"
  shows "\<exists>st' b1 b2.
     dir_loop PI_OUTPUT (data_pins (curchip st)) [gpioReg st 0, gpioReg st 1, gpioReg st 2] = Some b1 \<and>
     dir_loop PI_INPUT (data_pins (curchip st)) b1 = Some b2 \<and>
     writeparallel e ds st = Some st' \<and>
     curchip st' = curchip st \<and> reads st' = reads st \<and>
     gpioReg st' 0 = b2 ! 0 \<and> gpioReg st' 1 = b2 ! 1 \<and> gpioReg st' 2 = b2 ! 2 \<and>
     writes st' = writes st @
        [(0, b1 ! 0), (1, b1 ! 1), (2, b1 ! 2), (GPCLR0, clr st), (GPSET0, set_mask st)] @
        data_stores (curchip st) (push_bit (unat (enwr (curchip st))) 1) ds @
        [(0, b2 ! 0), (1, b2 ! 1), (2, b2 ! 2)] \<and>
     shifts st' = shifts st @ [unat (enwr (curchip st))] @
        concat (replicate (length ds * (8 div bits_per_cycle (curchip st)))
                  (map unat (data_pins (curchip st)))) \<and>
     timing st' = (if ds = [] then tsetup (curchip st) else tproc (curchip st))"
proof -
  let ?c = "curchip st"
  from dir_loop_Some[OF assms(2), of PI_OUTPUT "[gpioReg st 0, gpioReg st 1, gpioReg st 2]"]
  obtain b1 where b1: "dir_loop PI_OUTPUT (data_pins ?c) [gpioReg st 0, gpioReg st 1, gpioReg st 2] = Some b1"
    by blast
  from dir_loop_Some[OF assms(2), of PI_INPUT b1]
  obtain b2 where b2: "dir_loop PI_INPUT (data_pins ?c) b1 = Some b2" by blast
  let ?clk = "push_bit (unat (enwr ?c)) 1 :: u32"
  let ?s3 = "(SET e (commit_masks (commit_buf b1 (wait_end e st))))\<lparr>timing := tsetup ?c\<rparr>"
  let ?s4 = "?s3\<lparr>shifts := shifts ?s3 @ [unat (enwr ?c)]\<rparr>"
  have p31: "\<forall>p\<in>set (data_pins (curchip ?s4)). unat p < 31" using assms(2) by auto
  from write_bytes_run[OF assms(1) p31, of ?clk ds]
  obtain s5 where s5: "write_bytes e ?clk ds ?s4 = Some s5"
    "curchip s5 = curchip ?s4" "reads s5 = reads ?s4"
    "\<forall>r. r \<noteq> GPSET0 \<longrightarrow> r \<noteq> GPCLR0 \<longrightarrow> gpioReg s5 r = gpioReg ?s4 r"
    "writes s5 = writes ?s4 @ data_stores (curchip ?s4) ?clk ds"
    "shifts s5 = shifts ?s4 @
        concat (replicate (length ds * (8 div bits_per_cycle (curchip ?s4)))
                  (map unat (data_pins (curchip ?s4))))"
    "timing s5 = (if ds = [] then timing ?s4 else tproc (curchip ?s4))"
    by blast
  have w: "writeparallel e ds st = Some (commit_buf b2 s5)"
    using assms(1,3) b1 b2 s5(1)
    by (simp add: writeparallel_def Let_def WAIT_wait_end shl1_Some)
  show ?thesis
    apply (rule exI[of _ "commit_buf b2 s5"], rule exI[of _ b1], rule exI[of _ b2])
    using b1 b2 w s5 by (simp add: GPSET0_def GPCLR0_def)
qed

subsection \<open>The read transfer\<close>

lemma read_phase_run:
  assumes "clock_advances e" and "\<forall>p\<in>set (data_pins (curchip st)). unat p < 31"
  shows "\<exists>st'. read_phase e clk j val st =
        Some (sample_bits (data_pins (curchip st)) (levels e (reads st)) val, st') \<and>
     curchip st' = curchip st \<and> reads st' = Suc (reads st) \<and>
     (\<forall>r. r \<noteq> GPSET0 \<longrightarrow> r \<noteq> GPCLR0 \<longrightarrow> gpioReg st' r = gpioReg st r) \<and>
     writes st' = writes st @ read_phase_stores (curchip st) clk \<and>
     shifts st' = shifts st @ map unat (data_pins (curchip st))"
proof -
  consider "protocol (curchip st) = 6800" | "protocol (curchip st) = 8080"
    | "protocol (curchip st) \<noteq> 6800" "protocol (curchip st) \<noteq> 8080" by blast
  then show ?thesis
  proof cases
    case 1
    with assms show ?thesis
      by (simp add: read_phase_def Let_def sample_loop_eq WAIT_wait_end read_phase_stores_def)
  next
    case 2
    with assms show ?thesis
      by (simp add: read_phase_def Let_def sample_loop_eq WAIT_wait_end read_phase_stores_def)
  next
    case 3
    with assms show ?thesis
      by (simp add: read_phase_def Let_def sample_loop_eq WAIT_wait_end read_phase_stores_def)
  qed
qed

lemma read_phases_run:
  assumes "clock_advances e" and "\<forall>p\<in>set (data_pins (curchip st)). unat p < 31"
  shows "\<exists>st'. read_phases e clk j val st =
        Some (phases_value e (curchip st) j (reads st) val, st') \<and>
     curchip st' = curchip st \<and> reads st' = reads st + j \<and>
     (\<forall>r. r \<noteq> GPSET0 \<longrightarrow> r \<noteq> GPCLR0 \<longrightarrow> gpioReg st' r = gpioReg st r) \<and>
     writes st' = writes st @ concat (replicate j (read_phase_stores (curchip st) clk)) \<and>
     shifts st' = shifts st @ concat (replicate j (map unat (data_pins (curchip st))))"
  using assms(2)
proof (induction j arbitrary: val st)
  case 0
  then show ?case by simp
next
  case (Suc j)
  let ?v = "sample_bits (data_pins (curchip st)) (levels e (reads st)) val"
  from read_phase_run[OF assms(1) Suc.prems, of clk "Suc j" val]
  obtain s1 where s1: "read_phase e clk (Suc j) val st = Some (?v, s1)"
    "curchip s1 = curchip st" "reads s1 = Suc (reads st)"
    "\<forall>r. r \<noteq> GPSET0 \<longrightarrow> r \<noteq> GPCLR0 \<longrightarrow> gpioReg s1 r = gpioReg st r"
    "writes s1 = writes st @ read_phase_stores (curchip st) clk"
    "shifts s1 = shifts st @ map unat (data_pins (curchip st))"
    by blast
  have "\<forall>p\<in>set (data_pins (curchip s1)). unat p < 31" using Suc.prems s1(2) by simp
  from Suc.IH[OF this, of ?v]
  obtain st' where st': "read_phases e clk j ?v s1 = Some (phases_value e (curchip s1) j (reads s1) ?v, st')"
    "curchip st' = curchip s1" "reads st' = reads s1 + j"
    "\<forall>r. r \<noteq> GPSET0 \<longrightarrow> r \<noteq> GPCLR0 \<longrightarrow> gpioReg st' r = gpioReg s1 r"
    "writes st' = writes s1 @ concat (replicate j (read_phase_stores (curchip s1) clk))"
    "shifts st' = shifts s1 @ concat (replicate j (map unat (data_pins (curchip s1))))"
    by blast
  show ?case
    apply (rule exI[of _ st'])
    using s1 st' by simp
qed

lemma read_bytes_run:
  assumes "clock_advances e" and "\<forall>p\<in>set (data_pins (curchip st)). unat p < 31"
  shows "\<exists>st'. read_bytes e clk n st = Some (bytes_values e (curchip st) n (reads st), st') \<and>
     curchip st' = curchip st \<and>
     reads st' = reads st + n * (8 div bits_per_cycle (curchip st)) \<and>
     (\<forall>r. r \<noteq> GPSET0 \<longrightarrow> r \<noteq> GPCLR0 \<longrightarrow> gpioReg st' r = gpioReg st r) \<and>
     writes st' = writes st @
        concat (replicate (n * (8 div bits_per_cycle (curchip st))) (read_phase_stores (curchip st) clk)) \<and>
     shifts st' = shifts st @
        concat (replicate (n * (8 div bits_per_cycle (curchip st))) (map unat (data_pins (curchip st))))"
  using assms(2)
proof (induction n arbitrary: st)
  case 0
  then show ?case by simp
next
  case (Suc n)
  let ?j = "8 div bits_per_cycle (curchip st)"
  from read_phases_run[OF assms(1) Suc.prems, of clk ?j 0]
  obtain s1 where s1: "read_phases e clk ?j 0 st = Some (phases_value e (curchip st) ?j (reads st) 0, s1)"
    "curchip s1 = curchip st" "reads s1 = reads st + ?j"
    "\<forall>r. r \<noteq> GPSET0 \<longrightarrow> r \<noteq> GPCLR0 \<longrightarrow> gpioReg s1 r = gpioReg st r"
    "writes s1 = writes st @ concat (replicate ?j (read_phase_stores (curchip st) clk))"
    "shifts s1 = shifts st @ concat (replicate ?j (map unat (data_pins (curchip st))))"
    by blast
  have "\<forall>p\<in>set (data_pins (curchip s1)). unat p < 31" using Suc.prems s1(2) by simp
  from Suc.IH[OF this]
  obtain st' where st': "read_bytes e clk n s1 = Some (bytes_values e (curchip s1) n (reads s1), st')"
    "curchip st' = curchip s1"
    "reads st' = reads s1 + n * (8 div bits_per_cycle (curchip s1))"
    "\<forall>r. r \<noteq> GPSET0 \<longrightarrow> r \<noteq> GPCLR0 \<longrightarrow> gpioReg st' r = gpioReg s1 r"
    "writes st' = writes s1 @
        concat (replicate (n * (8 div bits_per_cycle (curchip s1))) (read_phase_stores (curchip s1) clk))"
    "shifts st' = shifts s1 @
        concat (replicate (n * (8 div bits_per_cycle (curchip s1))) (map unat (data_pins (curchip s1))))"
    by blast
  show ?case
    apply (rule exI[of _ st'])
    using s1 st' by (simp add: replicate_add)
qed

lemma read_bytes_the:
  assumes "clock_advances e" and "\<forall>p\<in>set (data_pins (curchip st)). unat p < 31"
  shows "read_bytes e clk n st =
           Some (bytes_values e (curchip st) n (reads st), read_end e clk n st)"
    and "curchip (read_end e clk n st) = curchip st"
    and "reads (read_end e clk n st) = reads st + n * (8 div bits_per_cycle (curchip st))"
    and "r \<noteq> GPSET0 \<Longrightarrow> r \<noteq> GPCLR0 \<Longrightarrow> gpioReg (read_end e clk n st) r = gpioReg st r"
    and "writes (read_end e clk n st) = writes st @
        concat (replicate (n * (8 div bits_per_cycle (curchip st))) (read_phase_stores (curchip st) clk))"
    and "shifts (read_end e clk n st) = shifts st @
        concat (replicate (n * (8 div bits_per_cycle (curchip st))) (map unat (data_pins (curchip st))))"
  using read_bytes_run[OF assms, of clk n] by (auto simp: read_end_def)

lemma or_set_Some: "unat pin < 31 \<Longrightarrow>
  or_set pin st = Some (st\<lparr>set_mask := set_mask st OR push_bit (unat pin) 1,
                           shifts := shifts st @ [unat pin]\<rparr>)"
  by (simp add: or_set_def shl1_Some)

lemma or_clr_Some: "unat pin < 31 \<Longrightarrow>
  or_clr pin st = Some (st\<lparr>clr := clr st OR push_bit (unat pin) 1,
                           shifts := shifts st @ [unat pin]\<rparr>)"
  by (simp add: or_clr_def shl1_Some)

lemma readparallel_run:
  assumes "clock_advances e" and "\<forall>p\<in>set (data_pins (curchip st)). unat p < 31"
    and "unat (rwrd (curchip st)) < 31" and "unat (enwr (curchip st)) < 31"
  shows "\<exists>st'. readparallel e n st = Some (bytes_values e (curchip st) n (reads st), st') \<and>
     curchip st' = curchip st \<and>
     reads st' = reads st + n * (8 div bits_per_cycle (curchip st)) \<and>
     (\<forall>r. r \<noteq> GPSET0 \<longrightarrow> r \<noteq> GPCLR0 \<longrightarrow> gpioReg st' r = gpioReg st r) \<and>
     writes st' = writes st @
        [(GPCLR0, clr st), (GPSET0, set_mask st OR rw_bit (curchip st))] @
        concat (replicate (n * (8 div bits_per_cycle (curchip st)))
                  (read_phase_stores (curchip st) (read_clk (curchip st)))) @
        [(GPCLR0, rw_bit (curchip st)), (GPSET0, 0)] \<and>
     shifts st' = shifts st @
        (if protocol (curchip st) = 6800
         then [unat (rwrd (curchip st)), unat (enwr (curchip st))]
         else if protocol (curchip st) = 8080 then [unat (rwrd (curchip st))] else []) @
        concat (replicate (n * (8 div bits_per_cycle (curchip st)))
                  (map unat (data_pins (curchip st)))) @
        (if protocol (curchip st) = 6800 then [unat (rwrd (curchip st))] else [])"
proof -
  note rb = read_bytes_the[OF assms(1)]
  consider "protocol (curchip st) = 6800" | "protocol (curchip st) = 8080"
    | "protocol (curchip st) \<noteq> 6800" "protocol (curchip st) \<noteq> 8080" by blast
  then show ?thesis
  proof cases
    case 1
    with assms show ?thesis
      by (simp add: readparallel_def Let_def WAIT_wait_end or_set_Some or_clr_Some shl1_Some
          rb rw_bit_def read_clk_def GPSET0_def GPCLR0_def)
  next
    case 2
    with assms show ?thesis
      by (simp add: readparallel_def Let_def WAIT_wait_end or_set_Some or_clr_Some shl1_Some
          rb rw_bit_def read_clk_def GPSET0_def GPCLR0_def)
  next
    case 3
    with assms show ?thesis
      by (simp add: readparallel_def Let_def WAIT_wait_end or_set_Some or_clr_Some shl1_Some
          rb rw_bit_def read_clk_def GPSET0_def GPCLR0_def)
  qed
qed

subsection \<open>The external methods\<close>

lemma make_chip_lcd4: "make_chip lcd4_args = lcd4"
  by (simp add: make_chip_def lcd4_args_def lcd8_args_def lcd4_def lcd8_def pin_or_undefined_def
      word_sless_alt)

lemma make_chip_edge: "make_chip edge_args =
   lcd8\<lparr>d7 := 28, d3 := 27, d2 := UNDEFINED, d1 := UNDEFINED, d0 := UNDEFINED, rwrd := UNDEFINED\<rparr>"
  by (simp add: make_chip_def edge_args_def lcd8_args_def lcd8_def pin_or_undefined_def
      word_sless_alt UNDEFINED_def)

lemma pin_or_undefined_eq:
  "pin_or_undefined x = (if 0 \<le> sint x \<and> sint x \<le> 27 then x else UNDEFINED)"
  by (auto simp: pin_or_undefined_def word_sless_alt)

lemma pin_or_undefined_iff:
  "pin_or_undefined x = UNDEFINED \<longleftrightarrow> \<not> (0 \<le> sint x \<and> sint x \<le> 27)"
proof -
  have "sint (UNDEFINED :: u32) = 65535" by (simp add: UNDEFINED_def)
  then show ?thesis by (auto simp: pin_or_undefined_eq)
qed

lemma write_bit_Some: "unat pin < 31 \<Longrightarrow>
  write_bit off pin st = Some (reg_write off (push_bit (unat pin) 1) (st\<lparr>shifts := shifts st @ [unat pin]\<rparr>))"
  by (simp add: write_bit_def shl1_Some)

lemma initialise_returns:
  assumes "gpiomem e"
    and "\<forall>p\<in>set (pins (make_chip a)). p = UNDEFINED \<or> unat p < 30"
    and "unat (enwr (make_chip a)) < 30"
  shows "\<exists>st'. initialise e a st = Some (Some (make_chip a), st') \<and>
           ttime st' = clock e (ticks st) \<and> timing st' = 0 \<and> ticks st' = Suc (ticks st)"
proof -
  let ?c = "make_chip a"
  let ?b = "[gpioReg st 0, gpioReg st 1, gpioReg st 2]"
  have rw: "rwrd ?c \<noteq> UNDEFINED \<Longrightarrow> unat (rwrd ?c) < 31"
    using assms(2) by (auto simp: pins_def)
  have en: "unat (enwr ?c) < 31" using assms(3) by simp
  have "\<forall>p\<in>set (filter (\<lambda>p. p \<noteq> UNDEFINED) (take 8 (pins ?c))). unat p < 30"
    using assms(2) by (auto dest: in_set_takeD)
  from dir_loop_Some[OF this, of PI_INPUT ?b]
  obtain b1 where b1: "dir_loop PI_INPUT (filter (\<lambda>p. p \<noteq> UNDEFINED) (take 8 (pins ?c))) ?b = Some b1"
    by blast
  have "\<forall>p\<in>set (filter (\<lambda>p. p \<noteq> UNDEFINED) (drop 8 (pins ?c))). unat p < 30"
    using assms(2) by (auto dest: in_set_dropD)
  from dir_loop_Some[OF this, of PI_OUTPUT b1]
  obtain b2 where b2: "dir_loop PI_OUTPUT (filter (\<lambda>p. p \<noteq> UNDEFINED) (drop 8 (pins ?c))) b1 = Some b2"
    by blast
  show ?thesis
    using assms(1) b1 b2 rw en
    by (simp add: initialise_def Let_def write_bit_Some)
qed

subsection \<open>Stores and clock readings\<close>

lemma stamped_from_refl [simp]: "stamped_from st st"
  by (simp add: stamped_from_def)

lemma stamped_from_trans:
  "stamped_from a b \<Longrightarrow> stamped_from b c \<Longrightarrow> stamped_from a c"
  unfolding stamped_from_def by fastforce

lemma wait_end_ticks: "clock_advances e \<Longrightarrow> ticks st < ticks (wait_end e st)"
  using WAIT_result[of e st] by (auto simp: wait_end_def)

lemma wait_end_stamps [simp]: "stamps (wait_end e st) = stamps st"
  by (auto simp: wait_end_def WAIT_def Let_def split: option.splits)

lemma SET_stamps [simp]: "stamps (SET e st) = stamps st"
  by (simp add: SET_def Let_def)

lemma reg_write_stamps [simp]: "stamps (reg_write off v st) = stamps st @ [ticks st]"
  by (simp add: reg_write_def)

lemma commit_buf_stamps [simp]:
  "stamps (commit_buf b st) = stamps st @ [ticks st, ticks st, ticks st]"
  by (simp add: commit_buf_def)

lemma commit_masks_stamps [simp]:
  "stamps (commit_masks st) = stamps st @ [ticks st, ticks st]"
  by (simp add: commit_masks_def)

lemma stamped_from_wait:
  "clock_advances e \<Longrightarrow> stamped_from a s \<Longrightarrow> stamped_from a (wait_end e s)"
  using wait_end_ticks[of e s] by (auto simp: stamped_from_def)

lemma stamped_from_SET: "stamped_from a s \<Longrightarrow> stamped_from a (SET e s)"
  by (auto simp: stamped_from_def)

lemma stamped_from_reg_write: "stamped_from a s \<Longrightarrow> stamped_from a (reg_write off v s)"
  by (auto simp: stamped_from_def)

lemma stamped_from_commit_buf: "stamped_from a s \<Longrightarrow> stamped_from a (commit_buf b s)"
  by (auto simp: stamped_from_def)

lemma stamped_from_commit_masks: "stamped_from a s \<Longrightarrow> stamped_from a (commit_masks s)"
  by (auto simp: stamped_from_def)

lemma stamped_from_upd [simp]:
  "stamped_from a (s\<lparr>timing := x\<rparr>) = stamped_from a s"
  "stamped_from a (s\<lparr>clr := y\<rparr>) = stamped_from a s"
  "stamped_from a (s\<lparr>set_mask := y\<rparr>) = stamped_from a s"
  "stamped_from a (s\<lparr>shifts := z\<rparr>) = stamped_from a s"
  "stamped_from a (s\<lparr>reads := n\<rparr>) = stamped_from a s"
  "stamped_from a (s\<lparr>curchip := c\<rparr>) = stamped_from a s"
  by (simp_all add: stamped_from_def)

lemmas stamped_intros = stamped_from_wait stamped_from_SET stamped_from_reg_write
  stamped_from_commit_buf stamped_from_commit_masks

lemma write_phase_stamped:
  assumes "clock_advances e" and "\<forall>p\<in>set (data_pins (curchip st)). unat p < 31"
    and "write_phase e clk j datum st = Some (d', st')"
  shows "stamped_from st st'"
proof -
  consider "protocol (curchip st) = 6800" | "protocol (curchip st) = 8080"
    | "protocol (curchip st) \<noteq> 6800" "protocol (curchip st) \<noteq> 8080" by blast
  then show ?thesis
  proof cases
    case 1
    with assms show ?thesis
      by (auto simp: write_phase_def Let_def mask_loop_eq WAIT_wait_end stamped_intros split: if_splits)
  next
    case 2
    with assms show ?thesis
      by (auto simp: write_phase_def Let_def mask_loop_eq WAIT_wait_end stamped_intros split: if_splits)
  next
    case 3
    with assms show ?thesis
      by (auto simp: write_phase_def Let_def mask_loop_eq WAIT_wait_end stamped_intros split: if_splits)
  qed
qed

lemma write_phase_curchip:
  assumes "clock_advances e" and "\<forall>p\<in>set (data_pins (curchip st)). unat p < 31"
    and "write_phase e clk j datum st = Some (d', st')"
  shows "curchip st' = curchip st"
  using write_phase_run[OF assms(1,2), of clk j datum] assms(3) by auto

lemma write_phases_stamped:
  assumes "clock_advances e"
  shows "\<forall>p\<in>set (data_pins (curchip st)). unat p < 31 \<Longrightarrow>
    write_phases e clk j datum st = Some (d', st') \<Longrightarrow> stamped_from st st' \<and> curchip st' = curchip st"
proof (induction j arbitrary: datum st)
  case 0
  then show ?case by simp
next
  case (Suc j)
  from Suc.prems(2) obtain d1 s1 where s1: "write_phase e clk (Suc j) datum st = Some (d1, s1)"
    "write_phases e clk j d1 s1 = Some (d', st')"
    by (auto split: Option.bind_splits)
  have c1: "curchip s1 = curchip st" using write_phase_curchip[OF assms Suc.prems(1) s1(1)] .
  have "stamped_from st s1" using write_phase_stamped[OF assms Suc.prems(1) s1(1)] .
  moreover have "stamped_from s1 st' \<and> curchip st' = curchip s1"
    using Suc.IH[OF _ s1(2)] Suc.prems(1) c1 by simp
  ultimately show ?case using c1 by (auto intro: stamped_from_trans)
qed

lemma write_bytes_stamped:
  assumes "clock_advances e"
  shows "\<forall>p\<in>set (data_pins (curchip st)). unat p < 31 \<Longrightarrow>
    write_bytes e clk ds st = Some st' \<Longrightarrow> stamped_from st st'"
proof (induction ds arbitrary: st)
  case Nil
  then show ?case by simp
next
  case (Cons d ds)
  from Cons.prems(2) obtain d1 s1 where s1:
    "write_phases e clk (8 div bits_per_cycle (curchip st)) d st = Some (d1, s1)"
    "write_bytes e clk ds s1 = Some st'"
    by (auto split: Option.bind_splits)
  from write_phases_stamped[OF assms Cons.prems(1) s1(1)]
  have a: "stamped_from st s1" "curchip s1 = curchip st" by auto
  have "stamped_from s1 st'" using Cons.IH[OF _ s1(2)] Cons.prems(1) a(2) by simp
  with a show ?case by (auto intro: stamped_from_trans)
qed

lemma wait_end_last_reading:
  "clock_advances e \<Longrightarrow> ctime (wait_end e st) = clock e (ticks (wait_end e st) - 1)"
  using WAIT_result[of e st] by (auto simp: wait_end_def)

lemma writeparallel_stamped:
  assumes "clock_advances e" and "\<forall>p\<in>set (data_pins (curchip st)). unat p < 30"
    and "unat (enwr (curchip st)) < 31"
    and "writeparallel e ds st = Some st'"
  shows "\<exists>k. ticks st \<le> k \<and> nsec_of (ttime st) + uint (timing st) \<le> nsec_of (clock e k) \<and>
           (\<forall>t\<in>set (drop (length (stamps st)) (stamps st')). k < t)"
proof -
  let ?sw = "wait_end e st"
  let ?k = "ticks ?sw - 1"
  have p31: "\<forall>p\<in>set (data_pins (curchip st)). unat p < 31" using assms(2) by auto
  from assms(4) obtain b1 s5 b2 where
    s5: "write_bytes e (push_bit (unat (enwr (curchip st))) 1) ds
           (((SET e (commit_masks (commit_buf b1 ?sw)))\<lparr>timing := tsetup (curchip st)\<rparr>)
              \<lparr>shifts := shifts ?sw @ [unat (enwr (curchip st))]\<rparr>) = Some s5"
    and st': "st' = commit_buf b2 s5"
    using assms(1,3)
    by (auto simp: writeparallel_def Let_def WAIT_wait_end shl1_Some split: Option.bind_splits)
  have "stamped_from ?sw s5"
    apply (rule stamped_from_trans[OF _ write_bytes_stamped[OF assms(1) _ s5]])
    using p31 by (simp_all add: stamped_intros)
  then have "stamped_from ?sw st'" unfolding st' by (rule stamped_from_commit_buf)
  then have a: "\<forall>t\<in>set (drop (length (stamps st)) (stamps st')). ticks ?sw \<le> t"
    by (auto simp: stamped_from_def)
  have b: "ticks st < ticks ?sw" using wait_end_ticks[OF assms(1)] .
  have "nsec_of (ttime ?sw) + uint (timing st) \<le> nsec_of (clock e ?k)"
    using wait_end_ctime[OF assms(1), of st] wait_end_last_reading[OF assms(1), of st] by simp
  then have c: "nsec_of (ttime st) + uint (timing st) \<le> nsec_of (clock e ?k)"
    using wait_end_ttime[of st e] by linarith
  show ?thesis
    apply (rule exI[of _ ?k])
    using a b c by fastforce
qed

subsection \<open>The cursor and the last store of a write transfer\<close>

lemma wait_end_ttime_cases:
  "ttime (wait_end e st) = ttime st \<or> ttime (wait_end e st) = clock e (ticks st)"
  by (auto simp: wait_end_def WAIT_def Let_def split: option.splits)

lemma carry_exact_wait: "carry_exact e c s \<Longrightarrow> carry_exact e c (wait_end e s)"
  using wait_end_ttime_cases[of e s] by (auto simp: carry_exact_def)

lemma SET_exact:
  assumes "carry_exact e c s"
  shows "nsec_of (ttime (SET e s)) = nsec_of (ttime s) + uint (timing s)"
    and "long32 e \<Longrightarrow> normalised (ttime (SET e s))"
proof -
  have "nsec_of (ttime (SET e s)) = nsec_of (ttime s) + uint (timing s) \<and>
        (long32 e \<longrightarrow> normalised (ttime (SET e s)))"
  proof (cases "long32 e")
    case False
    then show ?thesis by (simp add: SET_ttime Let_def nsec_of_def)
  next
    case True
    with assms have n: "0 \<le> tv_nsec (ttime s)" "tv_nsec (ttime s) < 1000000000"
      and t: "uint (timing s) \<le> 1000000000"
      by (simp_all add: carry_exact_def normalised_def)
    have la: "long_add (long32 e) (tv_nsec (ttime s)) (timing s) = tv_nsec (ttime s) + uint (timing s)"
      using True long_add_32[OF n, of "timing s"] n t by simp
    show ?thesis
      using n t uint_ge_0[of "timing s"] unfolding SET_ttime Let_def la nsec_of_def normalised_def
      by (auto split: if_splits)
  qed
  then show "nsec_of (ttime (SET e s)) = nsec_of (ttime s) + uint (timing s)"
    and "long32 e \<Longrightarrow> normalised (ttime (SET e s))" by simp_all
qed

lemma carry_exact_SET: "carry_exact e c s \<Longrightarrow> carry_exact e c (SET e s)"
  using SET_exact(2)[of e c s] by (auto simp: carry_exact_def)

lemma carry_exact_timing:
  "carry_exact e c s \<Longrightarrow> x = tsetup c \<or> x = tclock c \<or> x = tproc c \<Longrightarrow>
   carry_exact e c (s\<lparr>timing := x\<rparr>)"
  by (auto simp: carry_exact_def)

lemma carry_exact_upd [simp]:
  "carry_exact e c (s\<lparr>clr := y\<rparr>) = carry_exact e c s"
  "carry_exact e c (s\<lparr>set_mask := y\<rparr>) = carry_exact e c s"
  "carry_exact e c (s\<lparr>shifts := z\<rparr>) = carry_exact e c s"
  "carry_exact e c (s\<lparr>reads := n\<rparr>) = carry_exact e c s"
  "carry_exact e c (s\<lparr>curchip := c'\<rparr>) = carry_exact e c s"
  "carry_exact e c (reg_write off v s) = carry_exact e c s"
  "carry_exact e c (commit_buf b s) = carry_exact e c s"
  "carry_exact e c (commit_masks s) = carry_exact e c s"
  by (simp_all add: carry_exact_def)

lemma le_SET: "carry_exact e c s \<Longrightarrow> a \<le> nsec_of (ttime s) \<Longrightarrow> a \<le> nsec_of (ttime (SET e s))"
  using SET_exact(1)[of e c s] uint_ge_0[of "timing s"] by linarith

lemma logs_from_refl [simp]: "logs_from s s"
  by (simp add: logs_from_def)

lemma tied_logs: "tied e w a b \<Longrightarrow> logs_from a b"
  unfolding tied_def logs_from_def by fastforce

lemma logs_tied: "logs_from a b \<Longrightarrow> tied e w b c \<Longrightarrow> tied e w a c"
proof -
  assume "logs_from a b" "tied e w b c"
  then obtain W X pre ts where l: "writes b = writes a @ W" "stamps b = stamps a @ X" "length X = length W"
    and t: "0 < ticks c" "nsec_of (ttime c) \<le> nsec_of (clock e (ticks c - 1))"
      "writes c = writes b @ pre @ [w]" "stamps c = stamps b @ ts @ [ticks c]" "length ts = length pre"
    unfolding logs_from_def tied_def by blast
  have "writes c = writes a @ (W @ pre) @ [w]" "stamps c = stamps a @ (X @ ts) @ [ticks c]"
    "length (X @ ts) = length (W @ pre)"
    using l t by simp_all
  with t(1,2) show ?thesis unfolding tied_def by blast
qed

lemma tied_step:
  assumes "clock_advances e" and "carry_exact e c s" and "logs_from a s"
  shows "tied e (off, v) a ((SET e (reg_write off v (wait_end e s)))\<lparr>timing := x\<rparr>)"
proof -
  let ?w = "wait_end e s"
  let ?r = "reg_write off v ?w"
  have ce: "carry_exact e c ?r" using carry_exact_wait[OF assms(2)] by simp
  have "nsec_of (ttime (SET e ?r)) = nsec_of (ttime ?w) + uint (timing s)"
    using SET_exact(1)[OF ce] by simp
  also have "\<dots> \<le> nsec_of (ctime ?w)" using wait_end_ctime[OF assms(1)] .
  also have "\<dots> = nsec_of (clock e (ticks ?w - 1))"
    using wait_end_last_reading[OF assms(1), of s] by simp
  finally have t: "nsec_of (ttime (SET e ?r)) \<le> nsec_of (clock e (ticks ?w - 1))" .
  have k: "0 < ticks ?w" using wait_end_ticks[OF assms(1), of s] by simp
  from assms(3) obtain W X where l: "writes s = writes a @ W" "stamps s = stamps a @ X"
    "length X = length W" unfolding logs_from_def by blast
  let ?f = "(SET e ?r)\<lparr>timing := x\<rparr>"
  have 1: "0 < ticks ?f" using k by simp
  have 2: "nsec_of (ttime ?f) \<le> nsec_of (clock e (ticks ?f - 1))" using t by simp
  have 3: "writes ?f = writes a @ W @ [(off, v)]" "stamps ?f = stamps a @ X @ [ticks ?f]"
    using l by simp_all
  from 1 2 3 l(3) show ?thesis unfolding tied_def by blast
qed

lemma write_phase_cursor:
  assumes "clock_advances e" and "\<forall>p\<in>set (data_pins (curchip st)). unat p < 31"
    and "carry_exact e (curchip st) st"
    and "write_phase e clk j datum st = Some (d', st')"
  shows "carry_exact e (curchip st) st'"
    and "nsec_of (ttime st) + uint (tclock (curchip st)) \<le> nsec_of (ttime st')"
    and "protocol (curchip st) = 6800 \<or> protocol (curchip st) = 8080 \<Longrightarrow>
         tied e (strobe_end (curchip st) clk) st st'"
proof -
  let ?c = "curchip st"
  define m where "m = mask_bits (data_pins ?c) datum
      (if protocol ?c = 8080 then clk else 0, if protocol ?c = 6800 then clk else 0)"
  define s4 where "s4 = st\<lparr>clr := fst m, set_mask := snd m,
      shifts := shifts st @ map unat (data_pins ?c)\<rparr>"
  define s7 where "s7 = (if protocol ?c = 6800
      then reg_write GPSET0 (snd m) (reg_write GPCLR0 (fst m) (wait_end e s4))
      else if protocol ?c = 8080
      then reg_write GPCLR0 (fst m) (reg_write GPSET0 (snd m) (wait_end e s4))
      else wait_end e s4)"
  define s8 where "s8 = (SET e s7)\<lparr>timing := tclock ?c\<rparr>"
  define s11 where "s11 = (if protocol ?c = 6800 then reg_write GPCLR0 clk (wait_end e s8)
      else if protocol ?c = 8080 then reg_write GPSET0 clk (wait_end e s8) else wait_end e s8)"
  define x where "x = (if j = 1 then tproc ?c else tclock ?c)"
  have st': "st' = (SET e s11)\<lparr>timing := x\<rparr>"
    using assms(1,2,4) unfolding x_def s11_def s8_def s7_def s4_def m_def
    by (auto simp: write_phase_def Let_def mask_loop_eq WAIT_wait_end split: if_splits)
  have c4: "carry_exact e ?c s4" using assms(3) by (simp add: s4_def)
  have c7: "carry_exact e ?c s7" using carry_exact_wait[OF c4] by (simp add: s7_def)
  have c8: "carry_exact e ?c s8"
    unfolding s8_def using carry_exact_timing[OF carry_exact_SET[OF c7], of "tclock ?c"] by simp
  have c11: "carry_exact e ?c s11" using carry_exact_wait[OF c8] by (simp add: s11_def)
  have xx: "x = tsetup ?c \<or> x = tclock ?c \<or> x = tproc ?c" by (simp add: x_def)
  show "carry_exact e ?c st'"
    unfolding st' using carry_exact_timing[OF carry_exact_SET[OF c11] xx] .
  have "nsec_of (ttime st) \<le> nsec_of (ttime s7)"
    using wait_end_ttime[of s4 e] by (simp add: s7_def s4_def)
  then have "nsec_of (ttime st) \<le> nsec_of (ttime s8)" using le_SET[OF c7] by (simp add: s8_def)
  then have "nsec_of (ttime st) \<le> nsec_of (ttime s11)"
    using le_wait_end[of _ s8 e] by (simp add: s11_def)
  moreover have "timing s11 = tclock ?c" by (simp add: s11_def s8_def)
  ultimately show "nsec_of (ttime st) + uint (tclock ?c) \<le> nsec_of (ttime st')"
    unfolding st' using SET_exact(1)[OF c11] by simp
  assume p: "protocol ?c = 6800 \<or> protocol ?c = 8080"
  have l8: "logs_from st s8"
    using p by (auto simp: logs_from_def s8_def s7_def s4_def)
  from p show "tied e (strobe_end ?c clk) st st'"
  proof
    assume 6: "protocol ?c = 6800"
    then show ?thesis
      unfolding st' using tied_step[OF assms(1) c8 l8, of GPCLR0 clk x]
      by (simp add: strobe_end_def s11_def)
  next
    assume 8: "protocol ?c = 8080"
    then show ?thesis
      unfolding st' using tied_step[OF assms(1) c8 l8, of GPSET0 clk x]
      by (simp add: strobe_end_def s11_def)
  qed
qed

lemma write_phases_cursor:
  assumes "clock_advances e"
  shows "\<forall>p\<in>set (data_pins (curchip st)). unat p < 31 \<Longrightarrow> carry_exact e (curchip st) st \<Longrightarrow>
    write_phases e clk j datum st = Some (d', st') \<Longrightarrow>
    curchip st' = curchip st \<and> carry_exact e (curchip st) st' \<and>
    nsec_of (ttime st) \<le> nsec_of (ttime st') \<and>
    (0 < j \<longrightarrow> nsec_of (ttime st) + uint (tclock (curchip st)) \<le> nsec_of (ttime st')) \<and>
    (protocol (curchip st) = 6800 \<or> protocol (curchip st) = 8080 \<longrightarrow> 0 < j \<longrightarrow>
       tied e (strobe_end (curchip st) clk) st st')"
proof (induction j arbitrary: datum st)
  case 0
  then show ?case by simp
next
  case (Suc j)
  from Suc.prems(3) obtain d1 s1 where s1: "write_phase e clk (Suc j) datum st = Some (d1, s1)"
    "write_phases e clk j d1 s1 = Some (d', st')"
    by (auto split: Option.bind_splits)
  have c1: "curchip s1 = curchip st" using write_phase_curchip[OF assms Suc.prems(1) s1(1)] .
  note ph = write_phase_cursor[OF assms Suc.prems(1,2) s1(1)]
  from Suc.IH[OF _ _ s1(2)] Suc.prems(1) ph(1) c1
  have ih: "curchip st' = curchip st" "carry_exact e (curchip st) st'"
    "nsec_of (ttime s1) \<le> nsec_of (ttime st')"
    "protocol (curchip st) = 6800 \<or> protocol (curchip st) = 8080 \<longrightarrow> 0 < j \<longrightarrow>
       tied e (strobe_end (curchip st) clk) s1 st'"
    by simp_all
  have "tied e (strobe_end (curchip st) clk) st st'"
    if p: "protocol (curchip st) = 6800 \<or> protocol (curchip st) = 8080"
  proof (cases j)
    case 0
    with s1(2) have "st' = s1" by simp
    with ph(3)[OF p] show ?thesis by simp
  next
    case (Suc k)
    with ih(4) p have "tied e (strobe_end (curchip st) clk) s1 st'" by simp
    with tied_logs[OF ph(3)[OF p]] show ?thesis by (rule logs_tied)
  qed
  moreover have "nsec_of (ttime st) + uint (tclock (curchip st)) \<le> nsec_of (ttime st')"
    using ph(2) ih(3) by linarith
  moreover have "nsec_of (ttime st) \<le> nsec_of (ttime st')"
    using ph(2) ih(3) uint_ge_0[of "tclock (curchip st)"] by linarith
  ultimately show ?case using ih(1,2) by blast
qed

lemma write_bytes_cursor:
  assumes "clock_advances e"
  shows "\<forall>p\<in>set (data_pins (curchip st)). unat p < 31 \<Longrightarrow> carry_exact e (curchip st) st \<Longrightarrow>
    write_bytes e clk ds st = Some st' \<Longrightarrow>
    curchip st' = curchip st \<and> carry_exact e (curchip st) st' \<and>
    nsec_of (ttime st) \<le> nsec_of (ttime st') \<and>
    (ds \<noteq> [] \<longrightarrow> nsec_of (ttime st) + uint (tclock (curchip st)) \<le> nsec_of (ttime st')) \<and>
    (protocol (curchip st) = 6800 \<or> protocol (curchip st) = 8080 \<longrightarrow> ds \<noteq> [] \<longrightarrow>
       tied e (strobe_end (curchip st) clk) st st')"
proof (induction ds arbitrary: st)
  case Nil
  then show ?case by simp
next
  case (Cons d ds)
  let ?j = "8 div bits_per_cycle (curchip st)"
  have j: "0 < ?j" by (simp add: bits_per_cycle_def)
  from Cons.prems(3) obtain d1 s1 where s1:
    "write_phases e clk ?j d st = Some (d1, s1)" "write_bytes e clk ds s1 = Some st'"
    by (auto split: Option.bind_splits)
  from write_phases_cursor[OF assms Cons.prems(1,2) s1(1)] j
  have ph: "curchip s1 = curchip st" "carry_exact e (curchip st) s1"
    "nsec_of (ttime st) + uint (tclock (curchip st)) \<le> nsec_of (ttime s1)"
    "protocol (curchip st) = 6800 \<or> protocol (curchip st) = 8080 \<longrightarrow>
       tied e (strobe_end (curchip st) clk) st s1"
    by simp_all
  from Cons.IH[OF _ _ s1(2)] Cons.prems(1) ph(1,2)
  have ih: "curchip st' = curchip st" "carry_exact e (curchip st) st'"
    "nsec_of (ttime s1) \<le> nsec_of (ttime st')"
    "protocol (curchip st) = 6800 \<or> protocol (curchip st) = 8080 \<longrightarrow> ds \<noteq> [] \<longrightarrow>
       tied e (strobe_end (curchip st) clk) s1 st'"
    by simp_all
  have "tied e (strobe_end (curchip st) clk) st st'"
    if p: "protocol (curchip st) = 6800 \<or> protocol (curchip st) = 8080"
  proof (cases ds)
    case Nil
    with s1(2) have "st' = s1" by simp
    with ph(4) p show ?thesis by simp
  next
    case (Cons a as)
    with ih(4) p have "tied e (strobe_end (curchip st) clk) s1 st'" by simp
    moreover from ph(4) p have "logs_from st s1" using tied_logs by blast
    ultimately show ?thesis by (rule logs_tied[rotated])
  qed
  moreover have "nsec_of (ttime st) + uint (tclock (curchip st)) \<le> nsec_of (ttime st')"
    using ph(3) ih(3) by linarith
  moreover have "nsec_of (ttime st) \<le> nsec_of (ttime st')"
    using ph(3) ih(3) uint_ge_0[of "tclock (curchip st)"] by linarith
  ultimately show ?case using ih(1,2) by blast
qed

lemma writeparallel_cursor:
  assumes "clock_advances e" and "\<forall>p\<in>set (data_pins (curchip st)). unat p < 30"
    and "unat (enwr (curchip st)) < 31" and "carry_exact e (curchip st) st"
    and "writeparallel e ds st = Some st'"
  shows "carry_exact e (curchip st) st'" and "nsec_of (ttime st) \<le> nsec_of (ttime st')"
    and "ds \<noteq> [] \<Longrightarrow> nsec_of (ttime st) + uint (tclock (curchip st)) \<le> nsec_of (ttime st')"
    and "protocol (curchip st) = 6800 \<or> protocol (curchip st) = 8080 \<Longrightarrow> ds \<noteq> [] \<Longrightarrow>
      0 < ticks st' \<and> nsec_of (ttime st') \<le> nsec_of (clock e (ticks st' - 1)) \<and>
      (\<exists>pre ts. writes st' = writes st @ pre @
            [strobe_end (curchip st) (push_bit (unat (enwr (curchip st))) 1),
             (0, gpioReg st' 0), (1, gpioReg st' 1), (2, gpioReg st' 2)] \<and>
         stamps st' = stamps st @ ts @ [ticks st', ticks st', ticks st', ticks st'] \<and>
         length ts = length pre)"
proof -
  let ?c = "curchip st"
  let ?clk = "push_bit (unat (enwr ?c)) 1 :: u32"
  have p31: "\<forall>p\<in>set (data_pins ?c). unat p < 31" using assms(2) by auto
  from assms(5) obtain b1 s5 b2 where
    s5: "write_bytes e ?clk ds
           (((SET e (commit_masks (commit_buf b1 (wait_end e st))))\<lparr>timing := tsetup ?c\<rparr>)
              \<lparr>shifts := shifts (wait_end e st) @ [unat (enwr ?c)]\<rparr>) = Some s5"
    and st': "st' = commit_buf b2 s5"
    using assms(1,3)
    by (auto simp: writeparallel_def Let_def WAIT_wait_end shl1_Some split: Option.bind_splits)
  define s4 where "s4 = ((SET e (commit_masks (commit_buf b1 (wait_end e st))))\<lparr>timing := tsetup ?c\<rparr>)
              \<lparr>shifts := shifts (wait_end e st) @ [unat (enwr ?c)]\<rparr>"
  have c3: "carry_exact e ?c (commit_masks (commit_buf b1 (wait_end e st)))"
    using carry_exact_wait[OF assms(4)] by simp
  have c4: "carry_exact e ?c s4"
    unfolding s4_def using carry_exact_timing[OF carry_exact_SET[OF c3], of "tsetup ?c"] by simp
  have cc: "curchip s4 = ?c" by (simp add: s4_def)
  have t4: "nsec_of (ttime st) \<le> nsec_of (ttime s4)"
    using le_SET[OF c3, of "nsec_of (ttime st)"] wait_end_ttime[of st e] by (simp add: s4_def)
  have l4: "logs_from st s4" by (simp add: logs_from_def s4_def)
  from write_bytes_cursor[OF assms(1), of s4 ?clk ds s5] p31 c4 cc s5
  have wb: "curchip s5 = ?c" "carry_exact e ?c s5" "nsec_of (ttime s4) \<le> nsec_of (ttime s5)"
    "protocol ?c = 6800 \<or> protocol ?c = 8080 \<longrightarrow> ds \<noteq> [] \<longrightarrow> tied e (strobe_end ?c ?clk) s4 s5"
    "ds \<noteq> [] \<longrightarrow> nsec_of (ttime s4) + uint (tclock ?c) \<le> nsec_of (ttime s5)"
    by (simp_all add: s4_def)
  show "carry_exact e ?c st'" using wb(2) by (simp add: st')
  show "nsec_of (ttime st) \<le> nsec_of (ttime st')" using t4 wb(3) by (simp add: st')
  show "nsec_of (ttime st) + uint (tclock ?c) \<le> nsec_of (ttime st')" if "ds \<noteq> []"
    using t4 wb(5) that by (simp add: st')
  assume "protocol ?c = 6800 \<or> protocol ?c = 8080" "ds \<noteq> []"
  with wb(4) have "tied e (strobe_end ?c ?clk) s4 s5" by simp
  with l4 have "tied e (strobe_end ?c ?clk) st s5" by (rule logs_tied)
  then obtain pre ts where t: "0 < ticks s5" "nsec_of (ttime s5) \<le> nsec_of (clock e (ticks s5 - 1))"
    "writes s5 = writes st @ pre @ [strobe_end ?c ?clk]"
    "stamps s5 = stamps st @ ts @ [ticks s5]" "length ts = length pre"
    unfolding tied_def by blast
  have "writes st' = writes st @ pre @
            [strobe_end ?c ?clk, (0, gpioReg st' 0), (1, gpioReg st' 1), (2, gpioReg st' 2)]"
    "stamps st' = stamps st @ ts @ [ticks st', ticks st', ticks st', ticks st']"
    using t(3,4) by (simp_all add: st')
  with t(1,2,5) show "0 < ticks st' \<and> nsec_of (ttime st') \<le> nsec_of (clock e (ticks st' - 1)) \<and>
      (\<exists>pre ts. writes st' = writes st @ pre @
            [strobe_end ?c ?clk, (0, gpioReg st' 0), (1, gpioReg st' 1), (2, gpioReg st' 2)] \<and>
         stamps st' = stamps st @ ts @ [ticks st', ticks st', ticks st', ticks st'] \<and>
         length ts = length pre)"
    unfolding st' by (simp only: commit_buf_fields) blast
qed

subsection \<open>Descriptors that satisfy the invariant\<close>

lemma le27_unat: "(p :: u32) \<le> 27 \<Longrightarrow> unat p \<le> 27"
  by (simp add: word_le_nat_alt)

lemma chip_inv_data_pins: "chip_inv c \<Longrightarrow> \<forall>p\<in>set (data_pins c). p \<le> 27"
  by (auto simp: chip_inv_def data_pins_def bits_per_cycle_def pins_def)

lemma chip_inv_data_pins_unat: "chip_inv c \<Longrightarrow> \<forall>p\<in>set (data_pins c). unat p \<le> 27"
  using chip_inv_data_pins le27_unat by blast

lemma chip_inv_control: "chip_inv c \<Longrightarrow> unat (rscd c) \<le> 27 \<and> unat (enwr c) \<le> 27"
  by (simp add: chip_inv_def le27_unat)

lemma writecommand_entry:
  "unat (rscd c) < 31 \<Longrightarrow> writecommand e c x st = writeparallel e [x] (command_entry c st)"
  by (cases st) (simp add: writecommand_def command_entry_def mode_bit_def mode_shifts_def Let_def
      or_set_Some or_clr_Some)

lemma writedata_entry:
  "unat (rscd c) < 31 \<Longrightarrow> writedata e c ds st = writeparallel e ds (data_entry c st)"
  by (cases st) (simp add: writedata_def data_entry_def mode_bit_def mode_shifts_def Let_def
      or_set_Some or_clr_Some)

lemma entry_fields [simp]:
  "curchip (command_entry c st) = c" "curchip (data_entry c st) = c"
  "ttime (command_entry c st) = ttime st" "ttime (data_entry c st) = ttime st"
  "timing (command_entry c st) = timing st" "timing (data_entry c st) = timing st"
  "ticks (command_entry c st) = ticks st" "ticks (data_entry c st) = ticks st"
  "stamps (command_entry c st) = stamps st" "stamps (data_entry c st) = stamps st"
  "writes (command_entry c st) = writes st" "writes (data_entry c st) = writes st"
  "reads (command_entry c st) = reads st" "reads (data_entry c st) = reads st"
  "gpioReg (command_entry c st) = gpioReg st" "gpioReg (data_entry c st) = gpioReg st"
  "clr (command_entry c st) = mode_bit c 6800" "clr (data_entry c st) = mode_bit c 8080"
  "set_mask (command_entry c st) = mode_bit c 8080" "set_mask (data_entry c st) = mode_bit c 6800"
  "shifts (command_entry c st) = shifts st @ mode_shifts c"
  "shifts (data_entry c st) = shifts st @ mode_shifts c"
  by (simp_all add: command_entry_def data_entry_def)

lemma chip_inv_write_pre:
  assumes "chip_inv c"
  shows "\<forall>p\<in>set (data_pins c). unat p < 30" "unat (enwr c) < 31" "unat (rscd c) < 31"
  using chip_inv_data_pins_unat[OF assms] chip_inv_control[OF assms] by fastforce+

lemma readdata_entry:
  "unat (rscd c) < 31 \<Longrightarrow> rwrd c \<noteq> UNDEFINED \<Longrightarrow>
   readdata e c n st =
     (case readparallel e n (data_entry c st) of None \<Rightarrow> None
      | Some (vals, s) \<Rightarrow> Some (0, vals, s))"
  by (cases st) (auto simp: readdata_def data_entry_def mode_bit_def mode_shifts_def Let_def
      or_set_Some or_clr_Some split: option.splits Option.bind_splits)

lemma readregister_entry:
  "unat (rscd c) < 31 \<Longrightarrow> rwrd c \<noteq> UNDEFINED \<Longrightarrow>
   readregister e c st =
     (case readparallel e 1 (command_entry c st) of None \<Rightarrow> None
      | Some (vals, s) \<Rightarrow> (case vals of [datareg] \<Rightarrow> Some (uint datareg, s) | _ \<Rightarrow> None))"
  by (cases st) (auto simp: readregister_def command_entry_def mode_bit_def mode_shifts_def Let_def
      or_set_Some or_clr_Some split: option.splits Option.bind_splits)

lemma chip_inv_read_pre:
  assumes "chip_inv c" and "rwrd c \<noteq> UNDEFINED"
  shows "\<forall>p\<in>set (data_pins c). unat p < 31" "unat (rwrd c) < 31" "unat (rwrd c) \<le> 27"
proof -
  show "\<forall>p\<in>set (data_pins c). unat p < 31"
    using chip_inv_data_pins_unat[OF assms(1)] by fastforce
  have "rwrd c \<le> 27" using assms by (simp add: chip_inv_def)
  then show "unat (rwrd c) \<le> 27" by (rule le27_unat)
  then show "unat (rwrd c) < 31" by simp
qed

lemma mode_shifts_le: "chip_inv c \<Longrightarrow> \<forall>n\<in>set (mode_shifts c). n \<le> 27"
  by (simp add: mode_shifts_def chip_inv_control)

subsection \<open>Function-select fields\<close>

lemma seven_mask: "(7 :: u32) = mask 3"
  by (simp add: mask_eq_exp_minus_1)

lemma field_same:
  assumes "a < 10" and m: "m = 0 \<or> m = 1"
  shows "drop_bit (a * 3) ((w AND NOT (push_bit (a * 3) 7)) OR push_bit (a * 3) m) AND 7 = (m :: u32)"
proof -
  show ?thesis
    unfolding seven_mask
    apply (rule bit_word_eqI)
    using assms(1) m
    by (auto simp: bit_simps)
qed

lemma field_other:
  assumes "a < 10" and "b < 10" and "a \<noteq> b" and m: "m = 0 \<or> m = 1"
  shows "drop_bit (a * 3) ((w AND NOT (push_bit (b * 3) 7)) OR push_bit (b * 3) (m :: u32)) AND 7 =
         drop_bit (a * 3) w AND 7"
proof -
  show ?thesis
    unfolding seven_mask
    apply (rule bit_word_eqI)
    using assms(1,2,3) m
    by (auto simp: bit_simps)
qed

lemma pin_decomp: "(q :: nat) = p \<longleftrightarrow> q div 10 = p div 10 \<and> q mod 10 = p mod 10"
  by (metis div_mult_mod_eq)

lemma buf_mode_field:
  assumes "buf_mode pin m b = Some b'" and "length b = 3" and "q < 30" and "m = 0 \<or> m = 1"
  shows "buf_field b' q = (if q = unat pin then m else buf_field b q)"
proof -
  from assms(1) have reg: "unat pin div 10 < 3"
    and b': "b' = b[unat pin div 10 := (b ! (unat pin div 10) AND NOT (push_bit ((unat pin mod 10) * 3) 7))
                  OR push_bit ((unat pin mod 10) * 3) m]"
    by (auto simp: buf_mode_def Let_def split: if_splits)
  have qr: "q div 10 < 3" using assms(3) by simp
  show ?thesis
  proof (cases "q div 10 = unat pin div 10")
    case False
    then have "q \<noteq> unat pin" by auto
    with False show ?thesis by (simp add: buf_field_def b')
  next
    case True
    show ?thesis
    proof (cases "q mod 10 = unat pin mod 10")
      case True
      with \<open>q div 10 = unat pin div 10\<close> have "q = unat pin" using pin_decomp by blast
      then show ?thesis
        using field_same[of "unat pin mod 10" m "b ! (unat pin div 10)"] assms(2,4) reg
        by (simp add: buf_field_def b')
    next
      case False
      then have "q \<noteq> unat pin" by auto
      with False True show ?thesis
        using field_other[of "q mod 10" "unat pin mod 10" m "b ! (unat pin div 10)"] assms(2,4) reg
        by (simp add: buf_field_def b')
    qed
  qed
qed

lemma buf_mode_length: "buf_mode pin m b = Some b' \<Longrightarrow> length b' = length b"
  by (auto simp: buf_mode_def Let_def split: if_splits)

lemma dir_loop_field:
  "dir_loop m ps b = Some b' \<Longrightarrow> length b = 3 \<Longrightarrow> q < 30 \<Longrightarrow> m = 0 \<or> m = 1 \<Longrightarrow>
   length b' = 3 \<and> buf_field b' q = (if q \<in> unat ` set ps then m else buf_field b q)"
proof (induction ps arbitrary: b)
  case Nil
  then show ?case by simp
next
  case (Cons p ps)
  from Cons.prems(1) obtain b1 where b1: "buf_mode p m b = Some b1" "dir_loop m ps b1 = Some b'"
    by (auto split: option.splits)
  have l1: "length b1 = 3" using buf_mode_length[OF b1(1)] Cons.prems(2) by simp
  have f1: "buf_field b1 q = (if q = unat p then m else buf_field b q)"
    using buf_mode_field[OF b1(1) Cons.prems(2,3,4)] .
  from Cons.IH[OF b1(2) l1 Cons.prems(3,4)] f1 show ?case by auto
qed

lemma gpioGetMode_buf:
  "q < 30 \<Longrightarrow> gpioReg st 0 = b ! 0 \<Longrightarrow> gpioReg st 1 = b ! 1 \<Longrightarrow> gpioReg st 2 = b ! 2 \<Longrightarrow>
   gpioGetMode st q = buf_field b q"
proof -
  assume a: "q < 30" "gpioReg st 0 = b ! 0" "gpioReg st 1 = b ! 1" "gpioReg st 2 = b ! 2"
  then have "q div 10 = 0 \<or> q div 10 = 1 \<or> q div 10 = 2" by auto
  with a show ?thesis by (auto simp: gpioGetMode_def buf_field_def)
qed

lemma writeparallel_modes:
  assumes "clock_advances e" and "\<forall>p\<in>set (data_pins (curchip st)). unat p < 30"
    and "unat (enwr (curchip st)) < 31" and "q < 30"
  shows "\<exists>st'. writeparallel e ds st = Some st' \<and>
     gpioGetMode st' q =
       (if q \<in> unat ` set (data_pins (curchip st)) then PI_INPUT else gpioGetMode st q)"
proof -
  from writeparallel_run[OF assms(1,2,3), of ds]
  obtain st' b1 b2 where r:
    "dir_loop PI_OUTPUT (data_pins (curchip st)) [gpioReg st 0, gpioReg st 1, gpioReg st 2] = Some b1"
    "dir_loop PI_INPUT (data_pins (curchip st)) b1 = Some b2"
    "writeparallel e ds st = Some st'"
    "gpioReg st' 0 = b2 ! 0" "gpioReg st' 1 = b2 ! 1" "gpioReg st' 2 = b2 ! 2"
    by blast
  let ?b0 = "[gpioReg st 0, gpioReg st 1, gpioReg st 2]"
  from dir_loop_field[OF r(1) _ assms(4), unfolded PI_OUTPUT_def]
  have b1: "length b1 = 3"
    "buf_field b1 q = (if q \<in> unat ` set (data_pins (curchip st)) then 1 else buf_field ?b0 q)"
    by (simp_all add: PI_OUTPUT_def)
  from dir_loop_field[OF r(2) b1(1) assms(4)]
  have b2: "buf_field b2 q =
      (if q \<in> unat ` set (data_pins (curchip st)) then PI_INPUT else buf_field b1 q)"
    by (simp add: PI_INPUT_def)
  have "gpioGetMode st' q = buf_field b2 q"
    using gpioGetMode_buf[OF assms(4) r(4,5,6)] .
  moreover have "gpioGetMode st q = buf_field ?b0 q"
    using gpioGetMode_buf[OF assms(4), of st ?b0] by simp
  ultimately show ?thesis using r(3) b1(2) b2 by auto
qed

subsection \<open>Bits of the masks and levels of the pins\<close>

lemma pin_drives_simps [simp]:
  "pin_drives g [] = []"
  "pin_drives g (w # ws) = drive g w @ pin_drives g ws"
  "pin_drives g (xs @ ys) = pin_drives g xs @ pin_drives g ys"
  by (simp_all add: pin_drives_def)

lemma datum_msb: "(datum :: u8) AND 0x80 \<noteq> 0 \<longleftrightarrow> bit datum 7"
proof -
  have "(0x80 :: u8) = 2 ^ 7" by simp
  then show ?thesis by (simp only: and_exp_eq_0_iff_not_bit) simp
qed

lemma reading_bit: "p < 32 \<Longrightarrow> 0 < (readings :: u32) AND push_bit p 1 \<longleftrightarrow> bit readings p"
proof -
  have "readings AND push_bit p 1 = readings AND 2 ^ p" by simp
  then show ?thesis using and_exp_eq_0_iff_not_bit[of readings p] by (simp add: word_gt_0)
qed

lemma ex_less_Suc: "(\<exists>k<Suc m. P k) \<longleftrightarrow> P 0 \<or> (\<exists>k<m. P (Suc k))"
  by (auto simp: less_Suc_eq_0_disj)

lemma datum_shift_bit:
  "k \<le> 6 \<Longrightarrow> bit (push_bit 1 (datum :: u8)) (7 - k) \<longleftrightarrow> bit datum (7 - Suc k)"
proof -
  assume k: "k \<le> 6"
  then have "7 - k - 1 = 7 - Suc k" "1 \<le> 7 - k" "7 - k < 8" by simp_all
  then show ?thesis
    using bit_push_bit_iff[of 1 datum "7 - k"] by (simp add: possible_bit_word)
qed

lemma mask_bits_bit:
  "length ps \<le> 8 \<Longrightarrow> \<forall>p\<in>set ps. unat p < 32 \<Longrightarrow>
   (bit (snd (mask_bits ps datum cs)) n \<longleftrightarrow>
      bit (snd cs) n \<or> (\<exists>k<length ps. unat (ps ! k) = n \<and> bit datum (7 - k))) \<and>
   (bit (fst (mask_bits ps datum cs)) n \<longleftrightarrow>
      bit (fst cs) n \<or> (\<exists>k<length ps. unat (ps ! k) = n \<and> \<not> bit datum (7 - k)))"
proof (induction ps arbitrary: datum cs)
  case Nil
  then show ?case by simp
next
  case (Cons p ps)
  let ?d = "push_bit 1 datum"
  let ?b = "push_bit (unat p) 1 :: u32"
  let ?cs = "if bit datum 7 then (fst cs, snd cs OR ?b) else (fst cs OR ?b, snd cs)"
  from Cons.prems have l: "length ps \<le> 8" "\<forall>p\<in>set ps. unat p < 32" "unat p < 32"
    and l7: "length ps \<le> 7" by auto
  have step: "mask_bits (p # ps) datum cs = mask_bits ps ?d ?cs"
    by (simp only: mask_bits.simps datum_msb)
  have sh: "(\<exists>k<length ps. unat (ps ! k) = n \<and> bit ?d (7 - k)) \<longleftrightarrow>
            (\<exists>k<length ps. unat (ps ! k) = n \<and> bit datum (7 - Suc k))"
    using datum_shift_bit[of _ datum] l7 by (metis (no_types, lifting) less_Suc_eq_le less_le_trans not_less_eq_eq numeral_nat(3) Suc_numeral semiring_norm(5) order.strict_trans2)
  have shn: "(\<exists>k<length ps. unat (ps ! k) = n \<and> \<not> bit ?d (7 - k)) \<longleftrightarrow>
            (\<exists>k<length ps. unat (ps ! k) = n \<and> \<not> bit datum (7 - Suc k))"
    using datum_shift_bit[of _ datum] l7 by (metis (no_types, lifting) less_Suc_eq_le less_le_trans not_less_eq_eq numeral_nat(3) Suc_numeral semiring_norm(5) order.strict_trans2)
  have s0: "bit (snd ?cs) n \<longleftrightarrow> bit (snd cs) n \<or> (unat p = n \<and> bit datum 7)"
    using l(3) by (auto simp: bit_simps)
  have c0: "bit (fst ?cs) n \<longleftrightarrow> bit (fst cs) n \<or> (unat p = n \<and> \<not> bit datum 7)"
    using l(3) by (auto simp: bit_simps)
  from Cons.IH[OF l(1,2), of ?d ?cs]
  show ?case
    unfolding step length_Cons ex_less_Suc sh shn s0 c0
    by (simp only: nth_Cons_0 nth_Cons_Suc diff_zero) (blast)?
qed

lemma bpc_le8: "bits_per_cycle c \<le> 8"
  by (simp add: bits_per_cycle_def)

lemma phase_masks_bits:
  assumes "\<forall>p\<in>set (data_pins c). unat p < 32"
  shows "bit (snd (phase_masks c clk d)) n \<longleftrightarrow>
           (protocol c = 6800 \<and> bit clk n) \<or>
           (\<exists>k<bits_per_cycle c. unat (data_pins c ! k) = n \<and> bit d (7 - k))"
    and "bit (fst (phase_masks c clk d)) n \<longleftrightarrow>
           (protocol c = 8080 \<and> bit clk n) \<or>
           (\<exists>k<bits_per_cycle c. unat (data_pins c ! k) = n \<and> \<not> bit d (7 - k))"
  using mask_bits_bit[of "data_pins c" d
      "(if protocol c = 8080 then clk else 0, if protocol c = 6800 then clk else 0)" n] assms bpc_le8[of c]
  by (auto simp: phase_masks_def)

lemma phase_masks_off_pins:
  assumes "\<forall>p\<in>set (data_pins c). unat p < 32" and "g \<notin> unat ` set (data_pins c)"
  shows "bit (snd (phase_masks c clk d)) g \<longleftrightarrow> protocol c = 6800 \<and> bit clk g"
    and "bit (fst (phase_masks c clk d)) g \<longleftrightarrow> protocol c = 8080 \<and> bit clk g"
proof -
  have "\<not> (\<exists>k<bits_per_cycle c. unat (data_pins c ! k) = g \<and> P k)" for P
    using assms(2) by (metis image_eqI length_data_pins nth_mem)
  then show "bit (snd (phase_masks c clk d)) g \<longleftrightarrow> protocol c = 6800 \<and> bit clk g"
    and "bit (fst (phase_masks c clk d)) g \<longleftrightarrow> protocol c = 8080 \<and> bit clk g"
    using phase_masks_bits[OF assms(1), of clk d g] by auto
qed

lemma pin_drives_phase:
  assumes "\<forall>p\<in>set (data_pins c). unat p < 32" and "g \<notin> unat ` set (data_pins c)"
    and "\<forall>n. bit clk n \<longleftrightarrow> n = w"
  shows "pin_drives g (phase_stores c clk d) =
           (if g = w then (if protocol c = 6800 then [High, Low]
                           else if protocol c = 8080 then [Low, High] else [])
            else [])"
proof -
  note pm = phase_masks_off_pins[OF assms(1,2), of clk d]
  have dr: "drive g (GPSET0, x) = (if bit x g then [High] else [])"
    "drive g (GPCLR0, x) = (if bit x g then [Low] else [])" for x
    by (simp_all add: drive_def GPSET0_def GPCLR0_def)
  have a: "bit (snd (phase_masks c clk d)) g \<longleftrightarrow> protocol c = 6800 \<and> g = w"
    and b: "bit (fst (phase_masks c clk d)) g \<longleftrightarrow> protocol c = 8080 \<and> g = w"
    and k: "bit clk g \<longleftrightarrow> g = w"
    using pm assms(3) by simp_all
  have "pin_drives g (phase_stores c clk d) =
      (if protocol c = 6800
       then drive g (GPCLR0, fst (phase_masks c clk d)) @ drive g (GPSET0, snd (phase_masks c clk d)) @
            drive g (GPCLR0, clk)
       else if protocol c = 8080
       then drive g (GPSET0, snd (phase_masks c clk d)) @ drive g (GPCLR0, fst (phase_masks c clk d)) @
            drive g (GPSET0, clk)
       else [])"
    by (simp add: phase_stores_def)
  also have "\<dots> = (if g = w then (if protocol c = 6800 then [High, Low]
                           else if protocol c = 8080 then [Low, High] else [])
            else [])"
    unfolding dr a b k by simp
  finally show ?thesis .
qed

lemma pin_drives_byte:
  assumes "\<forall>p\<in>set (data_pins c). unat p < 32" and "g \<notin> unat ` set (data_pins c)"
    and "\<forall>n. bit clk n \<longleftrightarrow> n = w"
  shows "pin_drives g (byte_stores c clk j d) =
           concat (replicate j (pin_drives g (phase_stores c clk 0)))"
proof (induction j arbitrary: d)
  case 0
  then show ?case by simp
next
  case (Suc j)
  have "pin_drives g (phase_stores c clk d) = pin_drives g (phase_stores c clk 0)"
    by (simp only: pin_drives_phase[OF assms])
  with Suc show ?case by simp
qed

lemma pin_drives_data:
  assumes "\<forall>p\<in>set (data_pins c). unat p < 32" and "g \<notin> unat ` set (data_pins c)"
    and "\<forall>n. bit clk n \<longleftrightarrow> n = w"
  shows "pin_drives g (data_stores c clk ds) =
           concat (replicate (length ds * (8 div bits_per_cycle c))
                     (pin_drives g (phase_stores c clk 0)))"
proof (induction ds)
  case Nil
  then show ?case by (simp add: data_stores_def)
next
  case (Cons d ds)
  have "pin_drives g (data_stores c clk (d # ds)) =
        pin_drives g (byte_stores c clk (8 div bits_per_cycle c) d) @ pin_drives g (data_stores c clk ds)"
    by (simp add: data_stores_def)
  then show ?case
    by (simp only: Cons pin_drives_byte[OF assms] length_Cons mult_Suc replicate_add concat_append)
qed





lemma unat_image_iff: "unat (x :: u32) \<in> unat ` S \<longleftrightarrow> x \<in> S"
proof
  assume "unat x \<in> unat ` S"
  then obtain y where "y \<in> S" "unat x = unat y" by auto
  then show "x \<in> S" by (metis word_unat_eq_iff)
next
  assume "x \<in> S"
  then show "unat x \<in> unat ` S" by simp
qed

lemma bit_two_power: "bit (2 ^ p :: u32) n \<longleftrightarrow> n = p \<and> p < 32"
  by (auto simp: bit_simps)

lemma clk_bit: "unat (p :: u32) \<le> 27 \<Longrightarrow> \<forall>n. bit (push_bit (unat p) 1 :: u32) n \<longleftrightarrow> n = unat p"
  by (auto simp: bit_two_power)

lemma mode_bit_bit:
  "unat (rscd c) \<le> 27 \<Longrightarrow> bit (mode_bit c p) n \<longleftrightarrow> protocol c = p \<and> n = unat (rscd c)"
  by (auto simp: mode_bit_def bit_two_power)

lemma drive_fsel [simp]: "drive g (0, x) = []" "drive g (Suc 0, x) = []" "drive g (2, x) = []"
  by (simp_all add: drive_def GPSET0_def GPCLR0_def)

lemma drive_masks:
  "drive g (GPSET0, x) = (if bit x g then [High] else [])"
  "drive g (GPCLR0, x) = (if bit x g then [Low] else [])"
  by (simp_all add: drive_def GPSET0_def GPCLR0_def)


lemma sample_step_bit:
  "bit ((if c then push_bit 1 v OR 1 else push_bit 1 v) :: u8) j \<longleftrightarrow>
     (j = 0 \<and> c) \<or> (1 \<le> j \<and> j < 8 \<and> bit v (j - 1))"
proof -
  have a: "bit (push_bit 1 v) j \<longleftrightarrow> 1 \<le> j \<and> j < 8 \<and> bit v (j - 1)"
    using bit_push_bit_iff[of 1 v j] by (auto simp: possible_bit_word)
  have b: "bit (push_bit 1 v OR 1) j \<longleftrightarrow> bit (push_bit 1 v) j \<or> j = 0"
    by (simp only: bit_or_iff bit_1_iff possible_bit_word) (auto)?
  show ?thesis
    by (cases c) (simp_all only: if_True if_False a b, auto)
qed

lemma sample_bits_bit:
  "length ps \<le> 8 \<Longrightarrow> \<forall>p\<in>set ps. unat p < 32 \<Longrightarrow>
   bit (sample_bits ps r v) m \<longleftrightarrow>
     (m < length ps \<and> bit r (unat (ps ! (length ps - 1 - m)))) \<or>
     (length ps \<le> m \<and> m < 8 \<and> bit v (m - length ps))"
proof (induction ps arbitrary: v)
  case Nil
  then show ?case by (auto dest: bit_imp_le_length)
next
  case (Cons p ps)
  let ?v = "(if bit r (unat p) then push_bit 1 v OR 1 else push_bit 1 v) :: u8"
  from Cons.prems have l: "length ps \<le> 8" "\<forall>p\<in>set ps. unat p < 32" "unat p < 32"
    and l7: "length ps \<le> 7" by auto
  have step: "sample_bits (p # ps) r v = sample_bits ps r ?v"
    by (simp only: sample_bits.simps reading_bit[OF l(3)])
  note IH = Cons.IH[OF l(1,2), of ?v]
  show ?case
  proof (cases "m < length ps")
    case True
    then have "(p # ps) ! (length (p # ps) - 1 - m) = ps ! (length ps - 1 - m)"
      by (simp add: nth_Cons')
    with True show ?thesis unfolding step IH by simp
  next
    case False
    show ?thesis
    proof (cases "m = length ps")
      case True
      with l7 show ?thesis unfolding step IH sample_step_bit by simp
    next
      case False
      with \<open>\<not> m < length ps\<close> have "length ps < m" by simp
      then have "m - length ps - 1 = m - length (p # ps)" "1 \<le> m - length ps"
        "m - length ps < 8 \<longleftrightarrow> m < 8 + length ps" by auto
      with \<open>length ps < m\<close> show ?thesis unfolding step IH sample_step_bit by auto
    qed
  qed
qed

lemma pin_drives_replicate_nil:
  "pin_drives g X = [] \<Longrightarrow> pin_drives g (concat (replicate m X)) = []"
  by (induction m) simp_all

lemma pin_drives_read_phase:
  "\<not> bit clk g \<Longrightarrow> pin_drives g (read_phase_stores c clk) = []"
  by (simp add: read_phase_stores_def drive_masks)

lemma writeparallel_other_pin:
  assumes "clock_advances e" and "chip_inv (curchip st)"
    and "g \<notin> unat ` set (data_pins (curchip st))" and "g \<noteq> unat (enwr (curchip st))"
  shows "\<exists>s'. writeparallel e ds st = Some s' \<and>
     pin_drives g (drop (length (writes st)) (writes s')) =
       drive g (GPCLR0, clr st) @ drive g (GPSET0, set_mask st)"
proof -
  let ?c = "curchip st"
  let ?clk = "push_bit (unat (enwr ?c)) 1 :: u32"
  note pre = chip_inv_write_pre[OF assms(2)]
  from writeparallel_run[OF assms(1) pre(1,2), of ds]
  obtain s' b1 b2 where r: "writeparallel e ds st = Some s'"
    "writes s' = writes st @
        [(0, b1 ! 0), (1, b1 ! 1), (2, b1 ! 2), (GPCLR0, clr st), (GPSET0, set_mask st)] @
        data_stores ?c ?clk ds @ [(0, b2 ! 0), (1, b2 ! 1), (2, b2 ! 2)]"
    by blast
  have p32: "\<forall>p\<in>set (data_pins ?c). unat p < 32"
    using chip_inv_data_pins_unat[OF assms(2)] by fastforce
  have g27: "unat (enwr ?c) \<le> 27" using chip_inv_control[OF assms(2)] by simp
  note ck = clk_bit[OF g27]
  have "pin_drives g (data_stores ?c ?clk ds) = []"
    unfolding pin_drives_data[OF p32 assms(3) ck] pin_drives_phase[OF p32 assms(3) ck]
    using assms(4) by (simp add: pin_drives_replicate_nil)
  with r show ?thesis by simp
qed

lemma readparallel_other_pin:
  assumes "clock_advances e" and "chip_inv (curchip st)" and "rwrd (curchip st) \<noteq> UNDEFINED"
    and "g \<noteq> unat (rwrd (curchip st))" and "g \<noteq> unat (enwr (curchip st))"
  shows "\<exists>s'. readparallel e n st =
          Some (bytes_values e (curchip st) n (reads st), s') \<and>
     pin_drives g (drop (length (writes st)) (writes s')) =
       drive g (GPCLR0, clr st) @ drive g (GPSET0, set_mask st)"
proof -
  let ?c = "curchip st"
  note rp = chip_inv_read_pre[OF assms(2,3)]
  note pre = chip_inv_write_pre[OF assms(2)]
  from readparallel_run[OF assms(1) rp(1,2) pre(2), of n]
  obtain s' where r: "readparallel e n st = Some (bytes_values e ?c n (reads st), s')"
    "writes s' = writes st @
        [(GPCLR0, clr st), (GPSET0, set_mask st OR rw_bit ?c)] @
        concat (replicate (n * (8 div bits_per_cycle ?c)) (read_phase_stores ?c (read_clk ?c))) @
        [(GPCLR0, rw_bit ?c), (GPSET0, 0)]"
    by blast
  have rw: "\<not> bit (rw_bit ?c) g" using assms(4) by (simp add: rw_bit_def bit_two_power)
  have "\<not> bit (read_clk ?c) g" using assms(4,5) by (simp add: read_clk_def bit_two_power)
  then have "pin_drives g (concat (replicate (n * (8 div bits_per_cycle ?c))
                (read_phase_stores ?c (read_clk ?c)))) = []"
    by (simp add: pin_drives_replicate_nil pin_drives_read_phase)
  with r rw show ?thesis by (simp add: drive_masks bit_or_iff)
qed

lemma mode_drives:
  assumes "unat (rscd c) \<le> 27" and "protocol c = 6800 \<or> protocol c = 8080"
  shows "drive (unat (rscd c)) (GPCLR0, mode_bit c 8080) @ drive (unat (rscd c)) (GPSET0, mode_bit c 6800)
           = [if protocol c = 6800 then High else Low]"
    and "drive (unat (rscd c)) (GPCLR0, mode_bit c 6800) @ drive (unat (rscd c)) (GPSET0, mode_bit c 8080)
           = [if protocol c = 6800 then Low else High]"
  using assms(2) by (auto simp: drive_masks mode_bit_bit[OF assms(1)])

subsection \<open>4-bit mode\<close>

lemma four_bit_mode:
  assumes "d0 c = UNDEFINED"
  shows "bits_per_cycle c = 4" and "data_pins c = [d7 c, d6 c, d5 c, d4 c]"
    and "k < 4 \<Longrightarrow> pins c ! k = data_pins c ! k"
proof -
  show "bits_per_cycle c = 4" using assms by (simp add: bits_per_cycle_def)
  then show "data_pins c = [d7 c, d6 c, d5 c, d4 c]" by (simp add: data_pins_def pins_def)
  show "k < 4 \<Longrightarrow> pins c ! k = data_pins c ! k"
    using \<open>bits_per_cycle c = 4\<close> by (simp add: data_pins_def)
qed

lemma data_stores_nibbles:
  assumes "d0 c = UNDEFINED"
  shows "data_stores c clk ds =
     concat (map (\<lambda>b. phase_stores c clk b @ phase_stores c clk (push_bit 4 b)) ds)"
proof -
  have "byte_stores c clk (8 div bits_per_cycle c) b =
        phase_stores c clk b @ phase_stores c clk (push_bit 4 b)" for b
    by (simp add: four_bit_mode(1)[OF assms] numeral_2_eq_2)
  then have "byte_stores c clk (8 div bits_per_cycle c) =
        (\<lambda>b. phase_stores c clk b @ phase_stores c clk (push_bit 4 b))" by (rule ext)
  then show ?thesis by (simp only: data_stores_def)
qed

lemma low_nibble_bit: "k < 4 \<Longrightarrow> bit (push_bit 4 (b :: u8)) (7 - k) \<longleftrightarrow> bit b (3 - k)"
proof -
  assume "k < 4"
  then have "7 - k - 4 = 3 - k" "4 \<le> 7 - k" "7 - k < 8" by simp_all
  then show ?thesis using bit_push_bit_iff[of 4 b "7 - k"] by (simp add: possible_bit_word)
qed

lemma nibble_masks:
  assumes "chip_inv c" and "distinct (enwr c # data_pins c)" and "k < bits_per_cycle c"
  shows "bit (snd (phase_masks c (push_bit (unat (enwr c)) 1) b)) (unat (data_pins c ! k)) \<longleftrightarrow> bit b (7 - k)"
    and "bit (fst (phase_masks c (push_bit (unat (enwr c)) 1) b)) (unat (data_pins c ! k)) \<longleftrightarrow> \<not> bit b (7 - k)"
proof -
  let ?n = "unat (data_pins c ! k)"
  have p32: "\<forall>p\<in>set (data_pins c). unat p < 32"
    using chip_inv_data_pins_unat[OF assms(1)] by fastforce
  have g27: "unat (enwr c) \<le> 27" using chip_inv_control[OF assms(1)] by simp
  have mem: "data_pins c ! k \<in> set (data_pins c)" using assms(3) by simp
  with assms(2) have "data_pins c ! k \<noteq> enwr c" by auto
  then have ne: "?n \<noteq> unat (enwr c)" by (simp add: word_unat_eq_iff)
  have nk: "\<not> bit (push_bit (unat (enwr c)) 1 :: u32) ?n"
    using clk_bit[OF g27] ne by simp
  have uniq: "k' < bits_per_cycle c \<Longrightarrow> unat (data_pins c ! k') = ?n \<longleftrightarrow> k' = k" for k'
    using assms(2,3) by (auto simp: word_unat_eq_iff[symmetric] nth_eq_iff_index_eq)
  have ex: "(\<exists>k'<bits_per_cycle c. unat (data_pins c ! k') = ?n \<and> P k') \<longleftrightarrow> P k" for P
    using uniq assms(3) by auto
  show "bit (snd (phase_masks c (push_bit (unat (enwr c)) 1) b)) ?n \<longleftrightarrow> bit b (7 - k)"
    unfolding phase_masks_bits(1)[OF p32] ex using nk by simp
  show "bit (fst (phase_masks c (push_bit (unat (enwr c)) 1) b)) ?n \<longleftrightarrow> \<not> bit b (7 - k)"
    unfolding phase_masks_bits(2)[OF p32] ex using nk by simp
qed

lemma bytes_values_nth:
  "i < n \<Longrightarrow> bytes_values e c n r ! i =
     phases_value e c (8 div bits_per_cycle c) (r + i * (8 div bits_per_cycle c)) 0"
proof (induction n arbitrary: r i)
  case 0
  then show ?case by simp
next
  case (Suc n)
  show ?case
  proof (cases i)
    case 0
    then show ?thesis by simp
  next
    case (Suc j)
    with Suc.prems have "j < n" by simp
    from Suc.IH[OF this, of "r + 8 div bits_per_cycle c"] Suc show ?thesis
      by (simp add: add.assoc)
  qed
qed

lemma length_bytes_values [simp]: "length (bytes_values e c n r) = n"
  by (induction n arbitrary: r) simp_all

lemma nibble_value:
  assumes "chip_inv c" and "d0 c = UNDEFINED" and "k < 4"
  shows "bit (phases_value e c 2 r 0) (7 - k) \<longleftrightarrow> bit (levels e r) (unat (data_pins c ! k))"
    and "bit (phases_value e c 2 r 0) (3 - k) \<longleftrightarrow> bit (levels e (Suc r)) (unat (data_pins c ! k))"
proof -
  let ?ps = "data_pins c"
  have len: "length ?ps = 4" using four_bit_mode(1)[OF assms(2)] by simp
  have p32: "\<forall>p\<in>set ?ps. unat p < 32"
    using chip_inv_data_pins_unat[OF assms(1)] by fastforce
  have l8: "length ?ps \<le> 8" using len by simp
  note sb = sample_bits_bit[OF l8 p32]
  have v: "phases_value e c 2 r 0 =
      sample_bits ?ps (levels e (Suc r)) (sample_bits ?ps (levels e r) 0)"
    by (simp add: numeral_2_eq_2)
  from assms(3) have a: "\<not> 7 - k < 4" "4 \<le> 7 - k" "7 - k < 8" "7 - k - 4 = 3 - k" "3 - k < 4"
    "4 - 1 - (3 - k) = k" by simp_all
  show "bit (phases_value e c 2 r 0) (7 - k) \<longleftrightarrow> bit (levels e r) (unat (?ps ! k))"
    unfolding v sb len using a by simp
  show "bit (phases_value e c 2 r 0) (3 - k) \<longleftrightarrow> bit (levels e (Suc r)) (unat (?ps ! k))"
    unfolding v sb len using a by simp
qed

lemma lcd_facts:
  "chip_inv lcd8" "chip_inv lcd4" "chip_inv lcd4r"
  "data_pins lcd8 = [2, 3, 4, 5, 6, 7, 8, 27]" "data_pins lcd4 = [2, 3, 4, 5]"
  "data_pins lcd4r = [2, 3, 4, 5]"
  "bits_per_cycle lcd8 = 8" "bits_per_cycle lcd4 = 4" "bits_per_cycle lcd4r = 4"
  by (simp_all add: chip_inv_def lcd8_def lcd4_def lcd4r_def data_pins_def bits_per_cycle_def
      pins_def UNDEFINED_def)

subsection \<open>The example runs\<close>

lemma clock_advances_long32 [simp]: "clock_advances (e\<lparr>long32 := b\<rparr>) = clock_advances e"
  by (simp add: clock_advances_def)

lemma jitter_first:
  "map_option (\<lambda>s. (writes s ! 7, stamps s ! 7, length (stamps s), nsec_of (ttime s), timing s))
     (writecommand jitter_env lcd8 0 power_on) = Some ((GPCLR0, 2048), 7, 11, 360, 10000)"
  by code_simp

lemma jitter_second:
  "map_option (\<lambda>s. stamps s ! 11)
     (writecommand jitter_env lcd8 0 (the (writecommand jitter_env lcd8 0 power_on))) = Some 9"
  by code_simp

lemma jitter_readings: "nsec_of (clock jitter_env 6) = 10300" "nsec_of (clock jitter_env 9) = 10370"
  by (simp_all add: jitter_env_def jitter_ns_def nsec_of_def)

lemma late_init:
  "map_option (\<lambda>r. (fst r, nsec_of (ttime (snd r)))) (initialise late_env32 slow_args power_on) =
     Some (Some (lcd8\<lparr>tclock := 2000000000\<rparr>), 10000000000)"
  by code_simp

lemma late_first:
  "map_option (\<lambda>s. nsec_of (ttime s))
     (writecommand late_env32 (lcd8\<lparr>tclock := 2000000000\<rparr>) 0
        (snd (the (initialise late_env32 slow_args power_on)))) = Some 8605032764"
  by code_simp

section \<open>The claims\<close>

subsection \<open>C1: the timing cursor\<close>

text \<open>
  C1, as stated, fails in three places. First, it makes the timing cursor a
  per-descriptor value that only the transfer engine updates: \<^verbatim>\<open>ttime\<close> and
  \<^verbatim>\<open>timing\<close> are file-scope variables shared by all descriptors and \<^verbatim>\<open>initialise\<close>
  writes them. After a \<^verbatim>\<open>writecommand\<close> on an 8-bit descriptor the pending delay is
  its \<^verbatim>\<open>tproc\<close> of 10000 ns, and constructing a second descriptor resets it to 0.
  Second, the second of two consecutive calls does not wait \<^verbatim>\<open>tproc\<close> from the final
  strobe edge of the first but from the cursor, the time at which that edge was due.
  With clock readings at 0, 0, 10, 60, 70, 350, 10300, 10310, 10360 and 10370 ns the
  last busy-wait of the first call overshoots its target of 360 ns: the store that
  ends the last strobe pulse (store 7 of the log, counting from 0) is made after
  seven readings, the last at 10300 ns, and leaves the cursor at 360 ns; the first
  store of the second call (store 11 of the log) is made after nine readings, before
  the one at 10370 ns. Less than 70 ns lie between the two stores, against a
  \<^verbatim>\<open>tproc\<close> of 10000 ns. Third, the cursor does not always advance:
  where \<^verbatim>\<open>long\<close> is 32 bits wide and \<^verbatim>\<open>tclock\<close> is two seconds, the descriptor that
  \<^verbatim>\<open>initialise\<close> returns at 10 s has, after its first \<^verbatim>\<open>writecommand\<close>, a cursor of
  8.605 s.
\<close>

theorem cursor_counterexample:
  "writecommand (env_every 1000) lcd8 0 power_on \<noteq> None \<and>
   timing (the (writecommand (env_every 1000) lcd8 0 power_on)) = 10000 \<and>
   initialise (env_every 1000) lcd4_args (the (writecommand (env_every 1000) lcd8 0 power_on)) \<noteq> None \<and>
   timing (snd (the (initialise (env_every 1000) lcd4_args
                       (the (writecommand (env_every 1000) lcd8 0 power_on))))) = 0 \<and>
   writecommand jitter_env lcd8 0 power_on \<noteq> None \<and>
   writecommand jitter_env lcd8 0 (the (writecommand jitter_env lcd8 0 power_on)) \<noteq> None \<and>
   tproc lcd8 = 10000 \<and>
   writes (the (writecommand jitter_env lcd8 0 power_on)) ! 7 = (GPCLR0, push_bit (unat (enwr lcd8)) 1) \<and>
   stamps (the (writecommand jitter_env lcd8 0 power_on)) ! 7 = 7 \<and>
   nsec_of (clock jitter_env 6) = 10300 \<and>
   length (stamps (the (writecommand jitter_env lcd8 0 power_on))) = 11 \<and>
   nsec_of (ttime (the (writecommand jitter_env lcd8 0 power_on))) = 360 \<and>
   stamps (the (writecommand jitter_env lcd8 0 (the (writecommand jitter_env lcd8 0 power_on)))) ! 11 = 9 \<and>
   nsec_of (clock jitter_env 9) = 10370 \<and>
   fst (the (initialise late_env32 slow_args power_on)) = Some (lcd8\<lparr>tclock := 2000000000\<rparr>) \<and>
   nsec_of (ttime (the (writecommand late_env32 (lcd8\<lparr>tclock := 2000000000\<rparr>) 0
       (snd (the (initialise late_env32 slow_args power_on)))))) <
     nsec_of (ttime (snd (the (initialise late_env32 slow_args power_on))))"
proof -
  let ?e = "env_every 1000"
  have H: "clock_advances ?e" by (simp add: clock_every_advances)
  have inv: "chip_inv lcd8" by (simp add: chip_inv_def lcd8_def)
  note pre = chip_inv_write_pre[OF inv]
  from writeparallel_run[of ?e "command_entry lcd8 power_on" "[0]"] H pre
  obtain s1 where s1: "writeparallel ?e [0] (command_entry lcd8 power_on) = Some s1"
    "timing s1 = tproc lcd8" by auto
  then have w: "writecommand ?e lcd8 0 power_on = Some s1"
    using writecommand_entry[OF pre(3)] by simp
  have "gpiomem ?e" by (simp add: env_every_def)
  moreover have "\<forall>p\<in>set (pins (make_chip lcd4_args)). p = UNDEFINED \<or> unat p < 30"
    by (simp add: make_chip_lcd4 pins_def lcd4_def lcd8_def)
  moreover have "unat (enwr (make_chip lcd4_args)) < 30"
    by (simp add: make_chip_lcd4 lcd4_def lcd8_def)
  ultimately obtain s2 where "initialise ?e lcd4_args s1 = Some (Some (make_chip lcd4_args), s2)"
    "timing s2 = 0"
    using initialise_returns[of ?e lcd4_args s1] by blast
  with w s1(2) have a: "writecommand ?e lcd8 0 power_on \<noteq> None \<and>
   timing (the (writecommand ?e lcd8 0 power_on)) = 10000 \<and>
   initialise ?e lcd4_args (the (writecommand ?e lcd8 0 power_on)) \<noteq> None \<and>
   timing (snd (the (initialise ?e lcd4_args (the (writecommand ?e lcd8 0 power_on))))) = 0"
    by (simp add: lcd8_def)
  from jitter_first obtain j1 where j1: "writecommand jitter_env lcd8 0 power_on = Some j1"
    "writes j1 ! 7 = (GPCLR0, 2048)" "stamps j1 ! 7 = 7" "length (stamps j1) = 11"
    "nsec_of (ttime j1) = 360"
    by auto
  from jitter_second obtain j2 where j2:
    "writecommand jitter_env lcd8 0 (the (writecommand jitter_env lcd8 0 power_on)) = Some j2"
    "stamps j2 ! 11 = 9"
    by auto
  have k: "push_bit (unat (enwr lcd8)) 1 = (2048 :: u32)" "tproc lcd8 = 10000"
    by (simp_all add: lcd8_def)
  from late_init obtain b0 where b0:
    "initialise late_env32 slow_args power_on = Some (Some (lcd8\<lparr>tclock := 2000000000\<rparr>), b0)"
    "nsec_of (ttime b0) = 10000000000" by auto
  from late_first obtain b1 where b1:
    "writecommand late_env32 (lcd8\<lparr>tclock := 2000000000\<rparr>) 0
        (snd (the (initialise late_env32 slow_args power_on))) = Some b1"
    "nsec_of (ttime b1) = 8605032764" by auto
  show ?thesis
    using a j1 j2 k jitter_readings b0 b1 by simp
qed

text \<open>
  C1, amended. The timing state is one cursor shared by all descriptors: every
  \<^verbatim>\<open>initialise\<close> that returns a descriptor resets it to the clock reading it takes,
  with pending delay 0. Take two consecutive \<^verbatim>\<open>writecommand\<close> calls on one descriptor
  that satisfies the descriptor invariant, with protocol 6800 or 8080, under an
  advancing clock and, where \<^verbatim>\<open>long\<close> is 32 bits wide, with normalised clock readings
  and cursor and no delay above one second (\<open>carry_exact\<close>). Both calls return, each
  moves the cursor forward by at least \<^verbatim>\<open>tclock\<close>, never backwards, and the first
  call leaves \<^verbatim>\<open>tproc\<close> as the pending delay. The last four stores of the first call are the store that ends its last
  strobe pulse and the restore of the directions; no clock reading is taken after
  them, and the cursor the call leaves is at most the last clock reading taken
  before them: it is the time at which the final strobe edge was due, not later than
  the time at which it was made. There is a clock reading \<open>k\<close>, taken after the first
  call, that shows at least that cursor plus \<^verbatim>\<open>tproc\<close> and precedes every register
  store of the second call.
\<close>

theorem consecutive_commands:
  assumes "clock_advances e" and "chip_inv c" and "protocol c = 6800 \<or> protocol c = 8080"
    and "carry_exact e c st"
  shows "(\<forall>a st0 c' st0'. initialise e a st0 = Some (Some c', st0') \<longrightarrow>
            ttime st0' = clock e (ticks st0) \<and> timing st0' = 0) \<and>
         (\<exists>s1 s2 k pre ts.
            writecommand e c x st = Some s1 \<and> writecommand e c y s1 = Some s2 \<and>
            nsec_of (ttime st) + uint (tclock c) \<le> nsec_of (ttime s1) \<and>
            nsec_of (ttime s1) + uint (tclock c) \<le> nsec_of (ttime s2) \<and>
            timing s1 = tproc c \<and>
            writes s1 = writes st @ pre @
              [(if protocol c = 6800 then GPCLR0 else GPSET0, push_bit (unat (enwr c)) 1),
               (0, gpioReg s1 0), (1, gpioReg s1 1), (2, gpioReg s1 2)] \<and>
            stamps s1 = stamps st @ ts @ [ticks s1, ticks s1, ticks s1, ticks s1] \<and>
            length ts = length pre \<and>
            0 < ticks s1 \<and> nsec_of (ttime s1) \<le> nsec_of (clock e (ticks s1 - 1)) \<and>
            ticks s1 \<le> k \<and> nsec_of (ttime s1) + uint (tproc c) \<le> nsec_of (clock e k) \<and>
            (\<forall>t\<in>set (drop (length (stamps s1)) (stamps s2)). k < t))"
proof
  show "\<forall>a st0 c' st0'. initialise e a st0 = Some (Some c', st0') \<longrightarrow>
            ttime st0' = clock e (ticks st0) \<and> timing st0' = 0"
    by (auto simp: initialise_def Let_def write_bit_def shl1_def reg_write_def commit_buf_def
        split: if_splits Option.bind_splits)
next
  note pre = chip_inv_write_pre[OF assms(2)]
  let ?a = "command_entry c st"
  from writeparallel_run[of e ?a "[x]"] assms(1) pre
  obtain s1 where s1: "writeparallel e [x] ?a = Some s1" "timing s1 = tproc c" by auto
  have ca: "carry_exact e (curchip ?a) ?a" using assms(4) by (simp add: command_entry_def)
  have pa: "\<forall>p\<in>set (data_pins (curchip ?a)). unat p < 30" "unat (enwr (curchip ?a)) < 31"
    "protocol (curchip ?a) = 6800 \<or> protocol (curchip ?a) = 8080"
    using pre assms(3) by simp_all
  note c1 = writeparallel_cursor[OF assms(1) pa(1,2) ca s1(1)]
  from c1(4)[OF pa(3)] obtain pr ts where tie: "0 < ticks s1"
    "nsec_of (ttime s1) \<le> nsec_of (clock e (ticks s1 - 1))"
    "writes s1 = writes st @ pr @
        [strobe_end c (push_bit (unat (enwr c)) 1), (0, gpioReg s1 0), (1, gpioReg s1 1), (2, gpioReg s1 2)]"
    "stamps s1 = stamps st @ ts @ [ticks s1, ticks s1, ticks s1, ticks s1]" "length ts = length pr"
    by auto
  let ?b = "command_entry c s1"
  from writeparallel_run[of e ?b "[y]"] assms(1) pre
  obtain s2 where s2: "writeparallel e [y] ?b = Some s2" by auto
  have cb: "carry_exact e (curchip ?b) ?b" using c1(1) by (simp add: command_entry_def)
  have pb: "\<forall>p\<in>set (data_pins (curchip ?b)). unat p < 30" "unat (enwr (curchip ?b)) < 31"
    using pre by simp_all
  note c2 = writeparallel_cursor[OF assms(1) pb cb s2(1)]
  from writeparallel_stamped[OF assms(1) pb s2(1)]
  obtain k where k: "ticks s1 \<le> k" "nsec_of (ttime s1) + uint (timing s1) \<le> nsec_of (clock e k)"
    "\<forall>t\<in>set (drop (length (stamps s1)) (stamps s2)). k < t" by auto
  have w: "writecommand e c x st = Some s1" "writecommand e c y s1 = Some s2"
    using s1(1) s2(1) by (simp_all add: writecommand_entry[OF pre(3)])
  have m: "nsec_of (ttime st) + uint (tclock c) \<le> nsec_of (ttime s1)"
    "nsec_of (ttime s1) + uint (tclock c) \<le> nsec_of (ttime s2)"
    using c1(3) c2(3) by simp_all
  have k2: "nsec_of (ttime s1) + uint (tproc c) \<le> nsec_of (clock e k)" using k(2) s1(2) by simp
  have wr: "writes s1 = writes st @ pr @
              [(if protocol c = 6800 then GPCLR0 else GPSET0, push_bit (unat (enwr c)) 1),
               (0, gpioReg s1 0), (1, gpioReg s1 1), (2, gpioReg s1 2)]"
    using tie(3) by (simp add: strobe_end_def)
  show "\<exists>s1 s2 k pre ts.
            writecommand e c x st = Some s1 \<and> writecommand e c y s1 = Some s2 \<and>
            nsec_of (ttime st) + uint (tclock c) \<le> nsec_of (ttime s1) \<and>
            nsec_of (ttime s1) + uint (tclock c) \<le> nsec_of (ttime s2) \<and>
            timing s1 = tproc c \<and>
            writes s1 = writes st @ pre @
              [(if protocol c = 6800 then GPCLR0 else GPSET0, push_bit (unat (enwr c)) 1),
               (0, gpioReg s1 0), (1, gpioReg s1 1), (2, gpioReg s1 2)] \<and>
            stamps s1 = stamps st @ ts @ [ticks s1, ticks s1, ticks s1, ticks s1] \<and>
            length ts = length pre \<and>
            0 < ticks s1 \<and> nsec_of (ttime s1) \<le> nsec_of (clock e (ticks s1 - 1)) \<and>
            ticks s1 \<le> k \<and> nsec_of (ttime s1) + uint (tproc c) \<le> nsec_of (clock e k) \<and>
            (\<forall>t\<in>set (drop (length (stamps s1)) (stamps s2)). k < t)"
    apply (rule exI[of _ s1], rule exI[of _ s2], rule exI[of _ k], rule exI[of _ pr], rule exI[of _ ts])
    using w m s1(2) wr tie(1,2,4,5) k(1,3) k2 by blast
qed

text \<open>
  The witness, where \<^verbatim>\<open>long\<close> is 32 bits wide: two commands to the 8-bit display
  under a clock read every microsecond.
\<close>

theorem consecutive_commands_witness:
  "clock_advances (env32_every 1000) \<and> chip_inv lcd8 \<and>
   (protocol lcd8 = 6800 \<or> protocol lcd8 = 8080) \<and> carry_exact (env32_every 1000) lcd8 power_on \<and>
   (\<exists>s1 s2. writecommand (env32_every 1000) lcd8 0 power_on = Some s1 \<and>
      writecommand (env32_every 1000) lcd8 0 s1 = Some s2 \<and> timing s1 = 10000 \<and>
      nsec_of (ttime s1) + 300 \<le> nsec_of (ttime s2) \<and> last (stamps s1) = ticks s1 \<and>
      last (writes s1) = (2, gpioReg s1 2))"
proof -
  have H: "clock_advances (env32_every 1000)" by (simp add: env32_every_def clock_every_advances)
  have inv: "chip_inv lcd8" by (simp add: chip_inv_def lcd8_def)
  have p: "protocol lcd8 = 6800 \<or> protocol lcd8 = 8080" by (simp add: lcd8_def)
  have ce: "carry_exact (env32_every 1000) lcd8 power_on"
    by (simp add: carry_exact_def env32_every_def env_every_def clock_every_def normalised_def
        power_on_def lcd8_def)
  from consecutive_commands[OF H inv p ce, of 0 0, THEN conjunct2]
  obtain s1 s2 pre ts where "writecommand (env32_every 1000) lcd8 0 power_on = Some s1"
    "writecommand (env32_every 1000) lcd8 0 s1 = Some s2" "timing s1 = tproc lcd8"
    "nsec_of (ttime s1) + uint (tclock lcd8) \<le> nsec_of (ttime s2)"
    "writes s1 = writes power_on @ pre @
              [(if protocol lcd8 = 6800 then GPCLR0 else GPSET0, push_bit (unat (enwr lcd8)) 1),
               (0, gpioReg s1 0), (1, gpioReg s1 1), (2, gpioReg s1 2)]"
    "stamps s1 = stamps power_on @ ts @ [ticks s1, ticks s1, ticks s1, ticks s1]"
    by blast
  moreover have "tproc lcd8 = 10000" "uint (tclock lcd8) = 300" by (simp_all add: lcd8_def)
  ultimately have "\<exists>s1 s2. writecommand (env32_every 1000) lcd8 0 power_on = Some s1 \<and>
      writecommand (env32_every 1000) lcd8 0 s1 = Some s2 \<and> timing s1 = 10000 \<and>
      nsec_of (ttime s1) + 300 \<le> nsec_of (ttime s2) \<and> last (stamps s1) = ticks s1 \<and>
      last (writes s1) = (2, gpioReg s1 2)"
    by auto
  with H inv p ce show ?thesis by blast
qed

subsection \<open>C2: reading from a write-only descriptor\<close>

text \<open>
  C2. For every descriptor whose \<^verbatim>\<open>rwrd\<close> field is the UNUSED sentinel, \<^verbatim>\<open>readdata\<close>
  and \<^verbatim>\<open>readregister\<close> return \<open>- 1\<close> and touch no GPIO register: the state they
  leave is the state they found with \<^verbatim>\<open>curchip\<close> pointing to the descriptor, so no
  store is logged, no pin level is read, the clock is not read and the timing cursor
  and the mask buffers are as before; \<^verbatim>\<open>readdata\<close> stores no byte.
\<close>

theorem read_on_write_only:
  assumes "rwrd c = UNDEFINED"
  shows "readdata e c datanum st = Some (- 1, [], st\<lparr>curchip := c\<rparr>) \<and>
         readregister e c st = Some (- 1, st\<lparr>curchip := c\<rparr>) \<and>
         gpioReg (st\<lparr>curchip := c\<rparr>) = gpioReg st \<and>
         writes (st\<lparr>curchip := c\<rparr>) = writes st \<and>
         reads (st\<lparr>curchip := c\<rparr>) = reads st"
  using assms by (simp add: readdata_def readregister_def Let_def)

theorem read_on_write_only_witness:
  "rwrd (null_chip\<lparr>rwrd := UNDEFINED\<rparr>) = UNDEFINED \<and>
   readdata (env_every 1000) (null_chip\<lparr>rwrd := UNDEFINED\<rparr>) 2 power_on =
     Some (- 1, [], power_on\<lparr>curchip := null_chip\<lparr>rwrd := UNDEFINED\<rparr>\<rparr>) \<and>
   readregister (env_every 1000) (null_chip\<lparr>rwrd := UNDEFINED\<rparr>) power_on =
     Some (- 1, power_on\<lparr>curchip := null_chip\<lparr>rwrd := UNDEFINED\<rparr>\<rparr>)"
  using read_on_write_only[of "null_chip\<lparr>rwrd := UNDEFINED\<rparr>" "env_every 1000" 2 power_on]
  by simp

subsection \<open>C3: strobe pulses of a write transfer\<close>



subsection \<open>C4: WAIT\<close>

text \<open>
  C4, as stated, ends with "the cursor never lags real time by more than one
  pending delay". On return from \<^verbatim>\<open>WAIT\<close> this is false whenever the busy-wait
  overshoots its target: with the cursor at 0, a pending delay of 100 ns and clock
  readings 500 ns apart, the entry reading is 0 (no re-arm), the first reading of the
  loop is 500, and \<^verbatim>\<open>WAIT\<close> returns with the clock 500 ns past the cursor.
\<close>

theorem WAIT_lag_counterexample:
  "WAIT (env_every 500) (power_on\<lparr>timing := 100\<rparr>) \<noteq> None \<and>
   uint (timing (the (WAIT (env_every 500) (power_on\<lparr>timing := 100\<rparr>)))) <
     nsec_of (ctime (the (WAIT (env_every 500) (power_on\<lparr>timing := 100\<rparr>)))) -
     nsec_of (ttime (the (WAIT (env_every 500) (power_on\<lparr>timing := 100\<rparr>))))"
  by (simp add: WAIT_def Let_def power_on_def env_every_def nsec_of_def wait_loop.simps clock_every_def)

text \<open>
  C4, amended. When the clock keeps advancing, \<^verbatim>\<open>WAIT\<close> returns. If at entry the
  clock had reached cursor + pending delay, the cursor is the entry reading, otherwise
  it is unchanged; the pending delay is unchanged. The last clock reading is at
  least cursor + pending delay, every reading of the loop before it was below that
  target, and the entry reading is at most one pending delay past the cursor (the
  lag is bounded at the entry check, not on return).
\<close>

theorem WAIT_reaches_target:
  assumes "clock_advances e"
  shows "\<exists>st'. WAIT e st = Some st' \<and>
     (let now = clock e (ticks st);
          passed = (nsec_of (ttime st) + uint (timing st) \<le> nsec_of now)
      in ttime st' = (if passed then now else ttime st) \<and>
         timing st' = timing st \<and>
         nsec_of (ttime st') + uint (timing st') \<le> nsec_of (ctime st') \<and>
         nsec_of now - nsec_of (ttime st') \<le> uint (timing st') \<and>
         ticks st + 2 \<le> ticks st' \<and>
         ctime st' = clock e (ticks st' - 1) \<and>
         (\<forall>m. ticks st < m \<and> m < ticks st' - 1 \<longrightarrow>
              nsec_of (clock e m) < nsec_of (ttime st') + uint (timing st')))"
proof -
  from WAIT_result[OF assms, of st] obtain k where k: "ticks st < k"
    "WAIT e st = Some (st\<lparr>ttime := (if nsec_of (ttime st) + uint (timing st) \<le> nsec_of (clock e (ticks st))
                                    then clock e (ticks st) else ttime st),
                         ctime := clock e k, ticks := Suc k\<rparr>)"
    "(if nsec_of (ttime st) + uint (timing st) \<le> nsec_of (clock e (ticks st))
      then nsec_of (clock e (ticks st)) else nsec_of (ttime st)) + uint (timing st) \<le> nsec_of (clock e k)"
    "\<forall>m. ticks st < m \<and> m < k \<longrightarrow> nsec_of (clock e m) <
        (if nsec_of (ttime st) + uint (timing st) \<le> nsec_of (clock e (ticks st))
      then nsec_of (clock e (ticks st)) else nsec_of (ttime st)) + uint (timing st)"
    by blast
  show ?thesis
    apply (subst k(2))
    using k(1,3,4) by (auto simp: Let_def)
qed

theorem WAIT_reaches_target_witness:
  "clock_advances (env_every 500) \<and>
   WAIT (env_every 500) (power_on\<lparr>timing := 100\<rparr>) \<noteq> None \<and>
   nsec_of (ctime (the (WAIT (env_every 500) (power_on\<lparr>timing := 100\<rparr>)))) \<ge> 100"
  using WAIT_reaches_target[of "env_every 500" "power_on\<lparr>timing := 100\<rparr>"]
    clock_every_advances[of 500]
  by (auto simp: Let_def power_on_def env_every_def nsec_of_simp)

subsection \<open>C5: SET, the commit of the pending delay\<close>

text \<open>
  C5, as stated, promises a normalised result for every pending delay. \<^verbatim>\<open>SET\<close>
  carries at most once: from \<^verbatim>\<open>tv_nsec = 0\<close> a pending delay of 2000000000 ns leaves
  \<^verbatim>\<open>tv_nsec = 1000000000\<close>, whether \<^verbatim>\<open>long\<close> is 64 or 32 bits wide.
\<close>

theorem SET_carry_counterexample:
  "\<not> tv_nsec (ttime (SET (env_every 1000) (power_on\<lparr>timing := 2000000000\<rparr>))) < 1000000000 \<and>
   \<not> tv_nsec (ttime (SET (env32_every 1000) (power_on\<lparr>timing := 2000000000\<rparr>))) < 1000000000"
  by (simp add: SET_def Let_def power_on_def env_every_def env32_every_def long_add_def)

text \<open>
  C5, amended. For a cursor with \<open>0 \<le> tv_nsec < 10\<^sup>9\<close> and a pending delay with
  \<^verbatim>\<open>tv_nsec + timing\<close> below \<open>2 \<cdot> 10\<^sup>9\<close>, so for every pending delay of at most one
  second, \<^verbatim>\<open>SET\<close> yields a normalised cursor (\<open>0 \<le> tv_nsec < 10\<^sup>9\<close>) whose value in
  nanoseconds is the old value plus the pending delay exactly, carrying one second
  when the nanosecond sum reaches \<open>10\<^sup>9\<close>. For no larger pending delay is the result
  both normalised and exact, on either width of \<^verbatim>\<open>long\<close>. Where \<^verbatim>\<open>long\<close> is 64 bits
  wide the value is exact for every pending delay.
\<close>

theorem SET_adds_pending:
  assumes "0 \<le> tv_nsec (ttime st)" and "tv_nsec (ttime st) < 1000000000"
  shows "(0 \<le> tv_nsec (ttime (SET e st)) \<and> tv_nsec (ttime (SET e st)) < 1000000000 \<and>
          nsec_of (ttime (SET e st)) = nsec_of (ttime st) + uint (timing st)
            \<longleftrightarrow> tv_nsec (ttime st) + uint (timing st) < 2000000000) \<and>
         (tv_nsec (ttime st) + uint (timing st) < 2000000000 \<longrightarrow>
            tv_sec (ttime (SET e st)) =
              (if tv_nsec (ttime st) + uint (timing st) < 1000000000 then tv_sec (ttime st)
               else tv_sec (ttime st) + 1)) \<and>
         (\<not> long32 e \<longrightarrow> nsec_of (ttime (SET e st)) = nsec_of (ttime st) + uint (timing st))"
proof (cases "long32 e")
  case False
  with assms show ?thesis by (auto simp: SET_ttime Let_def nsec_of_def)
next
  case True
  have u: "0 \<le> uint (timing st)" by simp
  have la: "long_add (long32 e) (tv_nsec (ttime st)) (timing st) =
      (if tv_nsec (ttime st) + uint (timing st) < 2147483648
       then tv_nsec (ttime st) + uint (timing st)
       else tv_nsec (ttime st) + uint (timing st) - 4294967296)"
    using True long_add_32[OF assms] by simp
  show ?thesis
    using assms u True unfolding SET_ttime Let_def la nsec_of_def
    by (auto split: if_splits)
qed

text \<open>
  The witness, where \<^verbatim>\<open>long\<close> is 32 bits wide: 300 ns committed at 4.9999999 s give
  5.0000002 s.
\<close>

theorem SET_adds_pending_witness:
  "0 \<le> tv_nsec (ttime (power_on\<lparr>ttime := \<lparr>tv_sec = 4, tv_nsec = 999999900\<rparr>, timing := 300\<rparr>)) \<and>
   tv_nsec (ttime (power_on\<lparr>ttime := \<lparr>tv_sec = 4, tv_nsec = 999999900\<rparr>, timing := 300\<rparr>)) < 1000000000 \<and>
   tv_sec (ttime (SET (env32_every 1000)
       (power_on\<lparr>ttime := \<lparr>tv_sec = 4, tv_nsec = 999999900\<rparr>, timing := 300\<rparr>))) = 5 \<and>
   tv_nsec (ttime (SET (env32_every 1000)
       (power_on\<lparr>ttime := \<lparr>tv_sec = 4, tv_nsec = 999999900\<rparr>, timing := 300\<rparr>))) = 200"
  using SET_adds_pending[of "power_on\<lparr>ttime := \<lparr>tv_sec = 4, tv_nsec = 999999900\<rparr>, timing := 300\<rparr>"
      "env32_every 1000"]
  by (simp add: power_on_def nsec_of_def)

subsection \<open>C6: pin validation in initialise\<close>

text \<open>
  C6. The descriptor that \<^verbatim>\<open>initialise\<close> fills in, and returns whenever it returns
  one, holds \<^verbatim>\<open>d7\<close>, \<^verbatim>\<open>d6\<close>, \<^verbatim>\<open>d5\<close>, \<^verbatim>\<open>d4\<close>, \<^verbatim>\<open>rscd\<close> and \<^verbatim>\<open>enwr\<close> as given,
  without range validation; each of \<^verbatim>\<open>d3\<close>, \<^verbatim>\<open>d2\<close>, \<^verbatim>\<open>d1\<close>, \<^verbatim>\<open>d0\<close> and \<^verbatim>\<open>rwrd\<close>
  is stored as given when the supplied \<^verbatim>\<open>int\<close> lies in [0, 27] and as the UNUSED
  sentinel otherwise, and is the sentinel exactly when the supplied value is outside
  [0, 27].
\<close>

theorem initialise_stores_pins:
  "d7 (make_chip a) = arg_d7 a \<and> d6 (make_chip a) = arg_d6 a \<and>
   d5 (make_chip a) = arg_d5 a \<and> d4 (make_chip a) = arg_d4 a \<and>
   rscd (make_chip a) = arg_rscd a \<and> enwr (make_chip a) = arg_enwr a \<and>
   d3 (make_chip a) = (if 0 \<le> sint (arg_d3 a) \<and> sint (arg_d3 a) \<le> 27 then arg_d3 a else UNDEFINED) \<and>
   d2 (make_chip a) = (if 0 \<le> sint (arg_d2 a) \<and> sint (arg_d2 a) \<le> 27 then arg_d2 a else UNDEFINED) \<and>
   d1 (make_chip a) = (if 0 \<le> sint (arg_d1 a) \<and> sint (arg_d1 a) \<le> 27 then arg_d1 a else UNDEFINED) \<and>
   d0 (make_chip a) = (if 0 \<le> sint (arg_d0 a) \<and> sint (arg_d0 a) \<le> 27 then arg_d0 a else UNDEFINED) \<and>
   rwrd (make_chip a) = (if 0 \<le> sint (arg_rwrd a) \<and> sint (arg_rwrd a) \<le> 27 then arg_rwrd a else UNDEFINED) \<and>
   (d3 (make_chip a) = UNDEFINED \<longleftrightarrow> \<not> (0 \<le> sint (arg_d3 a) \<and> sint (arg_d3 a) \<le> 27)) \<and>
   (d2 (make_chip a) = UNDEFINED \<longleftrightarrow> \<not> (0 \<le> sint (arg_d2 a) \<and> sint (arg_d2 a) \<le> 27)) \<and>
   (d1 (make_chip a) = UNDEFINED \<longleftrightarrow> \<not> (0 \<le> sint (arg_d1 a) \<and> sint (arg_d1 a) \<le> 27)) \<and>
   (d0 (make_chip a) = UNDEFINED \<longleftrightarrow> \<not> (0 \<le> sint (arg_d0 a) \<and> sint (arg_d0 a) \<le> 27)) \<and>
   (rwrd (make_chip a) = UNDEFINED \<longleftrightarrow> \<not> (0 \<le> sint (arg_rwrd a) \<and> sint (arg_rwrd a) \<le> 27)) \<and>
   (\<forall>e st c st'. initialise e a st = Some (Some c, st') \<longrightarrow> c = make_chip a)"
proof -
  have "\<forall>e st c st'. initialise e a st = Some (Some c, st') \<longrightarrow> c = make_chip a"
    by (auto simp: initialise_def Let_def split: if_splits Option.bind_splits)
  then show ?thesis
    by (simp add: make_chip_def pin_or_undefined_iff) (simp add: pin_or_undefined_eq)
qed

text \<open>
  The witness: with \<^verbatim>\<open>d7 = 28\<close>, \<^verbatim>\<open>d3 = 27\<close>, \<^verbatim>\<open>d2 = 28\<close>, \<^verbatim>\<open>d1 = -1\<close>,
  \<^verbatim>\<open>d0 = 65535\<close> and \<^verbatim>\<open>rwrd = 28\<close>, \<^verbatim>\<open>initialise\<close> returns a descriptor; 27 is
  accepted, 28 is kept for \<^verbatim>\<open>d7\<close> and becomes UNUSED for \<^verbatim>\<open>d2\<close> and \<^verbatim>\<open>rwrd\<close>.
\<close>

theorem initialise_stores_pins_witness:
  "(\<exists>st'. initialise (env_every 1000) edge_args power_on = Some (Some (make_chip edge_args), st')) \<and>
   d7 (make_chip edge_args) = 28 \<and> d3 (make_chip edge_args) = 27 \<and>
   d2 (make_chip edge_args) = UNDEFINED \<and> d1 (make_chip edge_args) = UNDEFINED \<and>
   d0 (make_chip edge_args) = UNDEFINED \<and> rwrd (make_chip edge_args) = UNDEFINED"
proof -
  have "gpiomem (env_every 1000)" by (simp add: env_every_def)
  moreover have "\<forall>p\<in>set (pins (make_chip edge_args)). p = UNDEFINED \<or> unat p < 30"
    by (simp add: make_chip_edge pins_def lcd8_def)
  moreover have "unat (enwr (make_chip edge_args)) < 30"
    by (simp add: make_chip_edge lcd8_def)
  ultimately have ex: "\<exists>st'. initialise (env_every 1000) edge_args power_on =
      Some (Some (make_chip edge_args), st')"
    by (rule initialise_returns[THEN exE]) blast
  have "d7 (make_chip edge_args) = 28 \<and> d3 (make_chip edge_args) = 27 \<and>
   d2 (make_chip edge_args) = UNDEFINED \<and> d1 (make_chip edge_args) = UNDEFINED \<and>
   d0 (make_chip edge_args) = UNDEFINED \<and> rwrd (make_chip edge_args) = UNDEFINED"
    using initialise_stores_pins[of edge_args]
    by (simp add: edge_args_def lcd8_args_def UNDEFINED_def)
  with ex show ?thesis by (rule conjI)
qed

subsection \<open>C7: nibble order in 4-bit mode\<close>

text \<open>
  C7. Let the descriptor satisfy the descriptor invariant with \<^verbatim>\<open>d0\<close> UNUSED (4-bit
  mode), its protocol be 6800 or 8080, and \<^verbatim>\<open>enwr\<close>, \<^verbatim>\<open>d7\<close>, \<^verbatim>\<open>d6\<close>, \<^verbatim>\<open>d5\<close>, \<^verbatim>\<open>d4\<close>
  be pairwise distinct. Under an advancing clock a write transfer returns and its
  stores between lead-in and restore are, for every byte \<open>b\<close> in order, the phase of
  \<open>b\<close> followed by the phase of \<open>b\<close> shifted left by four. In the phase of \<open>b\<close> the
  set word has the bit of pin \<^verbatim>\<open>pins[k]\<close> exactly when bit \<open>7 - k\<close> of \<open>b\<close> is 1 and the
  clear word has it exactly when that bit is 0 (\<open>k < 4\<close>: \<^verbatim>\<open>d7..d4\<close> carry \<open>b7..b4\<close>);
  in the second phase the same pins carry bits \<open>3 - k\<close> (\<open>b3..b0\<close>). A read of
  \<open>datanum\<close> bytes on a readable descriptor returns 0 and stores \<open>datanum\<close> bytes; in
  byte \<open>i\<close>, bit \<open>7 - k\<close> is the level of \<^verbatim>\<open>pins[k]\<close> in the first sample taken for
  that byte and bit \<open>3 - k\<close> its level in the second sample.
\<close>

theorem nibble_order:
  assumes "clock_advances e" and "chip_inv c" and "d0 c = UNDEFINED"
    and "protocol c = 6800 \<or> protocol c = 8080"
    and "distinct (enwr c # data_pins c)"
  shows "(\<exists>s' lead restore. writedata e c ds st = Some s' \<and>
            drop (length (writes st)) (writes s') =
              lead @
              concat (map (\<lambda>b. phase_stores c (push_bit (unat (enwr c)) 1) b @
                               phase_stores c (push_bit (unat (enwr c)) 1) (push_bit 4 b)) ds) @
              restore \<and>
            length lead = 5 \<and> length restore = 3) \<and>
         (\<exists>s' lead restore. writecommand e c x st = Some s' \<and>
            drop (length (writes st)) (writes s') =
              lead @
              (phase_stores c (push_bit (unat (enwr c)) 1) x @
               phase_stores c (push_bit (unat (enwr c)) 1) (push_bit 4 x)) @
              restore \<and>
            length lead = 5 \<and> length restore = 3) \<and>
         (\<forall>b. phase_stores c (push_bit (unat (enwr c)) 1) b =
            (if protocol c = 6800
             then [(GPCLR0, fst (phase_masks c (push_bit (unat (enwr c)) 1) b)),
                   (GPSET0, snd (phase_masks c (push_bit (unat (enwr c)) 1) b)),
                   (GPCLR0, push_bit (unat (enwr c)) 1)]
             else [(GPSET0, snd (phase_masks c (push_bit (unat (enwr c)) 1) b)),
                   (GPCLR0, fst (phase_masks c (push_bit (unat (enwr c)) 1) b)),
                   (GPSET0, push_bit (unat (enwr c)) 1)])) \<and>
         (\<forall>b k. k < 4 \<longrightarrow>
            (bit (snd (phase_masks c (push_bit (unat (enwr c)) 1) b)) (unat (pins c ! k))
               \<longleftrightarrow> bit b (7 - k)) \<and>
            (bit (fst (phase_masks c (push_bit (unat (enwr c)) 1) b)) (unat (pins c ! k))
               \<longleftrightarrow> \<not> bit b (7 - k)) \<and>
            (bit (snd (phase_masks c (push_bit (unat (enwr c)) 1) (push_bit 4 b))) (unat (pins c ! k))
               \<longleftrightarrow> bit b (3 - k)) \<and>
            (bit (fst (phase_masks c (push_bit (unat (enwr c)) 1) (push_bit 4 b))) (unat (pins c ! k))
               \<longleftrightarrow> \<not> bit b (3 - k))) \<and>
         (rwrd c \<noteq> UNDEFINED \<longrightarrow>
            (\<exists>vals s'. readdata e c datanum st = Some (0, vals, s') \<and> length vals = datanum \<and>
               (\<forall>i<datanum. \<forall>k<4.
                  (bit (vals ! i) (7 - k) \<longleftrightarrow> bit (levels e (reads st + 2 * i)) (unat (pins c ! k))) \<and>
                  (bit (vals ! i) (3 - k) \<longleftrightarrow>
                     bit (levels e (reads st + 2 * i + 1)) (unat (pins c ! k))))))"
proof -
  let ?clk = "push_bit (unat (enwr c)) 1 :: u32"
  note pre = chip_inv_write_pre[OF assms(2)]
  note fb = four_bit_mode[OF assms(3)]
  have wr: "\<exists>s' lead restore. writeparallel e xs s = Some s' \<and>
            drop (length (writes st)) (writes s') =
              lead @ concat (map (\<lambda>b. phase_stores c ?clk b @ phase_stores c ?clk (push_bit 4 b)) xs) @
              restore \<and> length lead = 5 \<and> length restore = 3"
    if "curchip s = c" "writes s = writes st" for xs s
  proof -
    from writeparallel_run[of e s xs] assms(1) pre that(1)
    obtain s' b1 b2 where r: "writeparallel e xs s = Some s'"
      "writes s' = writes s @
        [(0, b1 ! 0), (1, b1 ! 1), (2, b1 ! 2), (GPCLR0, clr s), (GPSET0, set_mask s)] @
        data_stores c ?clk xs @ [(0, b2 ! 0), (1, b2 ! 1), (2, b2 ! 2)]"
      by auto
    show ?thesis
      apply (rule exI[of _ s'])
      apply (rule exI[of _ "[(0, b1 ! 0), (1, b1 ! 1), (2, b1 ! 2), (GPCLR0, clr s), (GPSET0, set_mask s)]"])
      apply (rule exI[of _ "[(0, b2 ! 0), (1, b2 ! 1), (2, b2 ! 2)]"])
      using r that(2) by (simp add: data_stores_nibbles[OF assms(3)])
  qed
  have 1: "\<exists>s' lead restore. writedata e c ds st = Some s' \<and>
            drop (length (writes st)) (writes s') =
              lead @ concat (map (\<lambda>b. phase_stores c ?clk b @ phase_stores c ?clk (push_bit 4 b)) ds) @
              restore \<and> length lead = 5 \<and> length restore = 3"
    using wr[of "data_entry c st" ds] by (simp add: writedata_entry[OF pre(3)])
  have 2: "\<exists>s' lead restore. writecommand e c x st = Some s' \<and>
            drop (length (writes st)) (writes s') =
              lead @ (phase_stores c ?clk x @ phase_stores c ?clk (push_bit 4 x)) @
              restore \<and> length lead = 5 \<and> length restore = 3"
    using wr[of "command_entry c st" "[x]"] by (simp add: writecommand_entry[OF pre(3)])
  have 3: "\<forall>b. phase_stores c ?clk b =
            (if protocol c = 6800
             then [(GPCLR0, fst (phase_masks c ?clk b)), (GPSET0, snd (phase_masks c ?clk b)),
                   (GPCLR0, ?clk)]
             else [(GPSET0, snd (phase_masks c ?clk b)), (GPCLR0, fst (phase_masks c ?clk b)),
                   (GPSET0, ?clk)])"
    using assms(4) by (auto simp: phase_stores_def)
  have 4: "(bit (snd (phase_masks c ?clk b)) (unat (pins c ! k)) \<longleftrightarrow> bit b (7 - k)) \<and>
           (bit (fst (phase_masks c ?clk b)) (unat (pins c ! k)) \<longleftrightarrow> \<not> bit b (7 - k)) \<and>
           (bit (snd (phase_masks c ?clk (push_bit 4 b))) (unat (pins c ! k)) \<longleftrightarrow> bit b (3 - k)) \<and>
           (bit (fst (phase_masks c ?clk (push_bit 4 b))) (unat (pins c ! k)) \<longleftrightarrow> \<not> bit b (3 - k))"
    if k: "k < 4" for b k
  proof -
    have kb: "k < bits_per_cycle c" using k fb(1) by simp
    note nm = nibble_masks[OF assms(2,5) kb]
    show ?thesis
      unfolding fb(3)[OF k] nm low_nibble_bit[OF k] by simp
  qed
  have 5: "\<exists>vals s'. readdata e c datanum st = Some (0, vals, s') \<and> length vals = datanum \<and>
               (\<forall>i<datanum. \<forall>k<4.
                  (bit (vals ! i) (7 - k) \<longleftrightarrow> bit (levels e (reads st + 2 * i)) (unat (pins c ! k))) \<and>
                  (bit (vals ! i) (3 - k) \<longleftrightarrow>
                     bit (levels e (reads st + 2 * i + 1)) (unat (pins c ! k))))"
    if rw: "rwrd c \<noteq> UNDEFINED"
  proof -
    note rp = chip_inv_read_pre[OF assms(2) rw]
    from readparallel_run[of e "data_entry c st" datanum] assms(1) rp pre(2)
    obtain s' where r: "readparallel e datanum (data_entry c st) =
        Some (bytes_values e c datanum (reads st), s')" by auto
    have "(bit (bytes_values e c datanum (reads st) ! i) (7 - k) \<longleftrightarrow>
              bit (levels e (reads st + 2 * i)) (unat (pins c ! k))) \<and>
          (bit (bytes_values e c datanum (reads st) ! i) (3 - k) \<longleftrightarrow>
              bit (levels e (reads st + 2 * i + 1)) (unat (pins c ! k)))"
      if "i < datanum" "k < 4" for i k
      using nibble_value[OF assms(2,3) that(2), of e "reads st + i * 2"]
      by (simp add: bytes_values_nth[OF that(1)] fb(1) fb(3)[OF that(2)] mult.commute)
    with r show ?thesis by (simp add: readdata_entry[OF pre(3) rw])
  qed
  from 1 2 3 4 5 show ?thesis by blast
qed

theorem nibble_order_witness:
  "clock_advances (env_every 1000) \<and> chip_inv lcd4r \<and> d0 lcd4r = UNDEFINED \<and>
   (protocol lcd4r = 6800 \<or> protocol lcd4r = 8080) \<and>
   distinct (enwr lcd4r # data_pins lcd4r) \<and> rwrd lcd4r \<noteq> UNDEFINED \<and> (2 :: nat) < 4 \<and>
   (\<exists>s' lead restore. writedata (env_every 1000) lcd4r [0x3C] power_on = Some s' \<and>
      writes s' = lead @ (phase_stores lcd4r 2048 0x3C @ phase_stores lcd4r 2048 (push_bit 4 0x3C)) @ restore) \<and>
   \<not> bit (snd (phase_masks lcd4r 2048 0x3C)) 2 \<and> bit (snd (phase_masks lcd4r 2048 0x3C)) 4 \<and>
   bit (snd (phase_masks lcd4r 2048 (push_bit 4 0x3C))) 2 \<and> \<not> bit (snd (phase_masks lcd4r 2048 (push_bit 4 0x3C))) 4 \<and>
   (\<exists>vals s'. readdata (env_every 1000) lcd4r 1 power_on = Some (0, vals, s') \<and> length vals = 1)"
proof -
  have H: "clock_advances (env_every 1000)" by (simp add: clock_every_advances)
  have p: "protocol lcd4r = 6800 \<or> protocol lcd4r = 8080" by (simp add: lcd4r_def lcd4_def lcd8_def)
  have u: "d0 lcd4r = UNDEFINED" by (simp add: lcd4r_def lcd4_def)
  have d: "distinct (enwr lcd4r # data_pins lcd4r)"
    by (simp add: lcd_facts) (simp add: lcd4r_def lcd4_def lcd8_def)
  have r: "rwrd lcd4r \<noteq> UNDEFINED" by (simp add: lcd4r_def UNDEFINED_def)
  have g: "push_bit (unat (enwr lcd4r)) 1 = (2048 :: u32)" "writes power_on = []"
    "unat (pins lcd4r ! 0) = 2" "unat (pins lcd4r ! 2) = 4"
    by (simp_all add: lcd4r_def lcd4_def lcd8_def power_on_def pins_def)
  note t = nibble_order[OF H lcd_facts(3) u p d, of "[0x3C]" power_on 0 1]
  from t[THEN conjunct1]
  have 1: "\<exists>s' lead restore. writedata (env_every 1000) lcd4r [0x3C] power_on = Some s' \<and>
      writes s' = lead @ (phase_stores lcd4r 2048 0x3C @ phase_stores lcd4r 2048 (push_bit 4 0x3C)) @ restore"
    unfolding g by auto
  from t[THEN conjunct2, THEN conjunct2, THEN conjunct2, THEN conjunct1, rule_format, of 0 "0x3C"]
  have 2: "\<not> bit (snd (phase_masks lcd4r 2048 0x3C)) 2" "bit (snd (phase_masks lcd4r 2048 (push_bit 4 0x3C))) 2"
    unfolding g by simp_all
  from t[THEN conjunct2, THEN conjunct2, THEN conjunct2, THEN conjunct1, rule_format, of 2 "0x3C"]
  have 3: "bit (snd (phase_masks lcd4r 2048 0x3C)) 4" "\<not> bit (snd (phase_masks lcd4r 2048 (push_bit 4 0x3C))) 4"
    unfolding g by simp_all
  from t[THEN conjunct2, THEN conjunct2, THEN conjunct2, THEN conjunct2] r
  have 4: "\<exists>vals s'. readdata (env_every 1000) lcd4r 1 power_on = Some (0, vals, s') \<and> length vals = 1"
    by blast
  from 1 2 3 4 H lcd_facts(3) u p d r show ?thesis by simp
qed

subsection \<open>C8: the level of rscd\<close>

text \<open>
  C8. Let the descriptor satisfy the descriptor invariant, its protocol be 6800 or
  8080, and \<^verbatim>\<open>rscd\<close> differ from the data pins, from \<^verbatim>\<open>enwr\<close> and from \<^verbatim>\<open>rwrd\<close>.
  Under an advancing clock every transfer returns and drives \<^verbatim>\<open>rscd\<close> exactly once:
  under 6800 high for \<^verbatim>\<open>writedata\<close> and \<^verbatim>\<open>readdata\<close> and low for \<^verbatim>\<open>writecommand\<close> and
  \<^verbatim>\<open>readregister\<close>, under 8080 low for the data transfers and high for the command
  transfers (the read calls on a descriptor with \<^verbatim>\<open>rwrd\<close> defined).
\<close>

theorem mode_selects_rscd_level:
  assumes "clock_advances e" and "chip_inv c"
    and "protocol c = 6800 \<or> protocol c = 8080"
    and "rscd c \<notin> set (data_pins c)" and "rscd c \<noteq> enwr c" and "rscd c \<noteq> rwrd c"
  shows "(\<exists>s'. writedata e c ds st = Some s' \<and>
            pin_drives (unat (rscd c)) (drop (length (writes st)) (writes s')) =
              [if protocol c = 6800 then High else Low]) \<and>
         (\<exists>s'. writecommand e c x st = Some s' \<and>
            pin_drives (unat (rscd c)) (drop (length (writes st)) (writes s')) =
              [if protocol c = 6800 then Low else High]) \<and>
         (rwrd c \<noteq> UNDEFINED \<longrightarrow>
            (\<exists>vals s'. readdata e c datanum st = Some (0, vals, s') \<and>
               pin_drives (unat (rscd c)) (drop (length (writes st)) (writes s')) =
                 [if protocol c = 6800 then High else Low])) \<and>
         (rwrd c \<noteq> UNDEFINED \<longrightarrow>
            (\<exists>r s'. readregister e c st = Some (r, s') \<and>
               pin_drives (unat (rscd c)) (drop (length (writes st)) (writes s')) =
                 [if protocol c = 6800 then Low else High]))"
proof -
  let ?g = "unat (rscd c)"
  note pre = chip_inv_write_pre[OF assms(2)]
  have r27: "?g \<le> 27" using chip_inv_control[OF assms(2)] by simp
  have off: "?g \<notin> unat ` set (data_pins c)" using assms(4) by (simp add: unat_image_iff)
  have ne: "?g \<noteq> unat (enwr c)" using assms(5) by (simp add: word_unat_eq_iff)
  have nr: "?g \<noteq> unat (rwrd c)" using assms(6) by (simp add: word_unat_eq_iff)
  note md = mode_drives[OF r27 assms(3)]
  from writeparallel_other_pin[of e "data_entry c st" ?g ds] assms(1,2) off ne md(1)
  have 1: "\<exists>s'. writedata e c ds st = Some s' \<and>
            pin_drives ?g (drop (length (writes st)) (writes s')) =
              [if protocol c = 6800 then High else Low]"
    by (simp add: writedata_entry[OF pre(3)])
  from writeparallel_other_pin[of e "command_entry c st" ?g "[x]"] assms(1,2) off ne md(2)
  have 2: "\<exists>s'. writecommand e c x st = Some s' \<and>
            pin_drives ?g (drop (length (writes st)) (writes s')) =
              [if protocol c = 6800 then Low else High]"
    by (simp add: writecommand_entry[OF pre(3)])
  have 3: "\<exists>vals s'. readdata e c datanum st = Some (0, vals, s') \<and>
               pin_drives ?g (drop (length (writes st)) (writes s')) =
                 [if protocol c = 6800 then High else Low]" if rw: "rwrd c \<noteq> UNDEFINED"
    using readparallel_other_pin[of e "data_entry c st" ?g datanum] assms(1,2) rw nr ne md(1)
    by (auto simp: readdata_entry[OF pre(3) rw])
  have 4: "\<exists>r s'. readregister e c st = Some (r, s') \<and>
               pin_drives ?g (drop (length (writes st)) (writes s')) =
                 [if protocol c = 6800 then Low else High]" if rw: "rwrd c \<noteq> UNDEFINED"
    using readparallel_other_pin[of e "command_entry c st" ?g 1] assms(1,2) rw nr ne md(2)
    by (auto simp: readregister_entry[OF pre(3) rw])
  from 1 2 3 4 show ?thesis by blast
qed

theorem mode_selects_rscd_level_witness:
  "clock_advances (env_every 1000) \<and> chip_inv lcd8 \<and>
   (protocol lcd8 = 6800 \<or> protocol lcd8 = 8080) \<and>
   rscd lcd8 \<notin> set (data_pins lcd8) \<and> rscd lcd8 \<noteq> enwr lcd8 \<and> rscd lcd8 \<noteq> rwrd lcd8 \<and>
   rwrd lcd8 \<noteq> UNDEFINED \<and>
   (\<exists>s'. writedata (env_every 1000) lcd8 [0x3C] power_on = Some s' \<and>
      pin_drives 10 (writes s') = [High]) \<and>
   (\<exists>r s'. readregister (env_every 1000) lcd8 power_on = Some (r, s') \<and>
      pin_drives 10 (writes s') = [Low])"
proof -
  have H: "clock_advances (env_every 1000)" by (simp add: clock_every_advances)
  have p: "protocol lcd8 = 6800 \<or> protocol lcd8 = 8080" by (simp add: lcd8_def)
  have d: "rscd lcd8 \<notin> set (data_pins lcd8)" by (simp add: lcd_facts) (simp add: lcd8_def)
  have r: "rscd lcd8 \<noteq> enwr lcd8" "rscd lcd8 \<noteq> rwrd lcd8" "rwrd lcd8 \<noteq> UNDEFINED"
    by (simp_all add: lcd8_def UNDEFINED_def)
  have g: "unat (rscd lcd8) = 10" "protocol lcd8 = 6800" "writes power_on = []"
    by (simp_all add: lcd8_def power_on_def)
  note t = mode_selects_rscd_level[OF H lcd_facts(1) p d r(1,2), of "[0x3C]" power_on 0 1]
  from t[THEN conjunct1]
  have 1: "\<exists>s'. writedata (env_every 1000) lcd8 [0x3C] power_on = Some s' \<and>
      pin_drives 10 (writes s') = [High]"
    unfolding g by simp
  from t[THEN conjunct2, THEN conjunct2, THEN conjunct2] r(3)
  have 2: "\<exists>r s'. readregister (env_every 1000) lcd8 power_on = Some (r, s') \<and>
      pin_drives 10 (writes s') = [Low]"
    unfolding g by simp
  from 1 2 H lcd_facts(1) p d r show ?thesis by blast
qed

subsection \<open>C9: directions after a write transfer\<close>

text \<open>
  C9. A write transfer (\<^verbatim>\<open>writedata\<close> or \<^verbatim>\<open>writecommand\<close>) on a descriptor that
  satisfies the descriptor invariant returns under an advancing clock, and afterwards
  the function-select field of every pin of the words 0 to 2 (pins 0 to 29) is input
  if the pin is one of the data pins \<^verbatim>\<open>pins[0..bpc-1]\<close> and otherwise is what it was
  when the transfer took its snapshot of the three words, at its start.
\<close>

theorem write_restores_directions:
  assumes "clock_advances e" and "chip_inv c" and "q < 30"
  shows "(\<exists>s'. writedata e c ds st = Some s' \<and>
            gpioGetMode s' q = (if q \<in> unat ` set (data_pins c) then PI_INPUT else gpioGetMode st q)) \<and>
         (\<exists>s'. writecommand e c x st = Some s' \<and>
            gpioGetMode s' q = (if q \<in> unat ` set (data_pins c) then PI_INPUT else gpioGetMode st q))"
proof -
  note pre = chip_inv_write_pre[OF assms(2)]
  have g: "gpioGetMode (data_entry c st) q = gpioGetMode st q"
    "gpioGetMode (command_entry c st) q = gpioGetMode st q"
    by (simp_all add: gpioGetMode_def)
  from writeparallel_modes[of e "data_entry c st" q ds] assms(1,3) pre g(1)
  have 1: "\<exists>s'. writedata e c ds st = Some s' \<and>
            gpioGetMode s' q = (if q \<in> unat ` set (data_pins c) then PI_INPUT else gpioGetMode st q)"
    by (auto simp: writedata_entry[OF pre(3)])
  from writeparallel_modes[of e "command_entry c st" q "[x]"] assms(1,3) pre g(2)
  have 2: "\<exists>s'. writecommand e c x st = Some s' \<and>
            gpioGetMode s' q = (if q \<in> unat ` set (data_pins c) then PI_INPUT else gpioGetMode st q)"
    by (auto simp: writecommand_entry[OF pre(3)])
  from 1 2 show ?thesis by blast
qed

theorem write_restores_directions_witness:
  "clock_advances (env_every 1000) \<and> chip_inv lcd4 \<and> (2 :: nat) < 30 \<and> (10 :: nat) < 30 \<and>
   (\<exists>s'. writedata (env_every 1000) lcd4 [0x3C] (power_on\<lparr>gpioReg := (\<lambda>off. 9)\<rparr>) = Some s' \<and>
      gpioGetMode s' 2 = PI_INPUT) \<and>
   (\<exists>s'. writedata (env_every 1000) lcd4 [0x3C] (power_on\<lparr>gpioReg := (\<lambda>off. 9)\<rparr>) = Some s' \<and>
      gpioGetMode s' 10 = PI_OUTPUT)"
proof -
  have H: "clock_advances (env_every 1000)" by (simp add: clock_every_advances)
  have inv: "chip_inv lcd4" by (simp add: chip_inv_def lcd4_def lcd8_def)
  have dp: "data_pins lcd4 = [2, 3, 4, 5]"
    by (simp add: data_pins_def bits_per_cycle_def pins_def lcd4_def lcd8_def)
  have g: "gpioGetMode (power_on\<lparr>gpioReg := (\<lambda>off. 9)\<rparr>) 10 = PI_OUTPUT"
    by (simp add: gpioGetMode_def PI_OUTPUT_def)
  have "\<exists>s'. writedata (env_every 1000) lcd4 [0x3C] (power_on\<lparr>gpioReg := (\<lambda>off. 9)\<rparr>) = Some s' \<and>
      gpioGetMode s' 2 = PI_INPUT"
    using write_restores_directions[OF H inv, of 2 "[0x3C]" "power_on\<lparr>gpioReg := (\<lambda>off. 9)\<rparr>" 0]
    by (simp add: dp)
  moreover
  have "\<exists>s'. writedata (env_every 1000) lcd4 [0x3C] (power_on\<lparr>gpioReg := (\<lambda>off. 9)\<rparr>) = Some s' \<and>
      gpioGetMode s' 10 = PI_OUTPUT"
    using write_restores_directions[OF H inv, of 10 "[0x3C]" "power_on\<lparr>gpioReg := (\<lambda>off. 9)\<rparr>" 0] g
    by (simp add: dp)
  ultimately show ?thesis using H inv by simp
qed

subsection \<open>C10: shift amounts\<close>

text \<open>
  C10, as stated, takes as invariant that every defined pin is in [0, 27] and that
  in 4-bit mode all of \<^verbatim>\<open>d3..d0\<close> are UNUSED. The 8-bit descriptor with \<^verbatim>\<open>d3\<close> alone
  UNUSED satisfies it, and \<^verbatim>\<open>initialise\<close> returns it for \<^verbatim>\<open>d3 = -1\<close>. Its \<^verbatim>\<open>d0\<close> is
  defined, so \<^verbatim>\<open>bpc\<close> is 8 and the loops index \<^verbatim>\<open>pins[0..7]\<close>, where \<^verbatim>\<open>pins[4]\<close> is
  the sentinel 0xFFFF: the direction loop of \<^verbatim>\<open>writeparallel\<close> indexes \<^verbatim>\<open>gpioBuf\<close>
  out of its bounds, the mask loop passes four pins and then evaluates
  \<^verbatim>\<open>1 << 65535\<close>, and no transfer on the descriptor has a defined result.
\<close>

theorem mixed_descriptor_counterexample:
  "fst (the (initialise (env_every 1000) mixed_args power_on)) = Some (lcd8\<lparr>d3 := UNDEFINED\<rparr>) \<and>
   stated_inv (lcd8\<lparr>d3 := UNDEFINED\<rparr>) \<and>
   bits_per_cycle (lcd8\<lparr>d3 := UNDEFINED\<rparr>) = 8 \<and>
   unat (data_pins (lcd8\<lparr>d3 := UNDEFINED\<rparr>) ! 4) = 65535 \<and>
   dir_loop PI_OUTPUT (data_pins (lcd8\<lparr>d3 := UNDEFINED\<rparr>)) [0, 0, 0] = None \<and>
   mask_loop (take 4 (data_pins (lcd8\<lparr>d3 := UNDEFINED\<rparr>))) 0 power_on \<noteq> None \<and>
   mask_loop (take 5 (data_pins (lcd8\<lparr>d3 := UNDEFINED\<rparr>))) 0 power_on = None \<and>
   writedata (env_every 1000) (lcd8\<lparr>d3 := UNDEFINED\<rparr>) [0] power_on = None \<and>
   writecommand (env_every 1000) (lcd8\<lparr>d3 := UNDEFINED\<rparr>) 0 power_on = None \<and>
   readdata (env_every 1000) (lcd8\<lparr>d3 := UNDEFINED\<rparr>) 1 power_on = None"
proof -
  let ?c = "lcd8\<lparr>d3 := UNDEFINED\<rparr>"
  have mk: "make_chip mixed_args = ?c"
    by (simp add: make_chip_def mixed_args_def lcd8_args_def lcd8_def pin_or_undefined_def
        word_sless_alt)
  have dp: "data_pins ?c = [2, 3, 4, 5, UNDEFINED, 7, 8, 27]"
    by (simp add: data_pins_def bits_per_cycle_def pins_def lcd8_def UNDEFINED_def)
  have "gpiomem (env_every 1000)" by (simp add: env_every_def)
  moreover have "\<forall>p\<in>set (pins (make_chip mixed_args)). p = UNDEFINED \<or> unat p < 30"
    unfolding mk by (simp add: pins_def lcd8_def)
  moreover have "unat (enwr (make_chip mixed_args)) < 30"
    unfolding mk by (simp add: lcd8_def)
  ultimately obtain s where "initialise (env_every 1000) mixed_args power_on = Some (Some ?c, s)"
    using initialise_returns[of "env_every 1000" mixed_args power_on] unfolding mk by blast
  then have 1: "fst (the (initialise (env_every 1000) mixed_args power_on)) = Some ?c" by simp
  have 2: "stated_inv ?c" by (simp add: stated_inv_def pins_def lcd8_def UNDEFINED_def)
  have 3: "bits_per_cycle ?c = 8" by (simp add: bits_per_cycle_def lcd8_def UNDEFINED_def)
  have 4: "unat (data_pins ?c ! 4) = 65535" unfolding dp by (simp add: UNDEFINED_def)
  have 5: "dir_loop PI_OUTPUT (data_pins ?c) [0, 0, 0] = None"
    unfolding dp by (simp add: buf_mode_def Let_def UNDEFINED_def)
  have 6: "mask_loop (take 4 (data_pins ?c)) 0 power_on \<noteq> None"
    unfolding dp by (simp add: shl1_def)
  have 7: "mask_loop (take 5 (data_pins ?c)) 0 power_on = None"
    unfolding dp by (simp add: shl1_def UNDEFINED_def)
  have d: "dir_loop PI_OUTPUT (data_pins ?c) b = None" for b
    unfolding dp by (simp add: buf_mode_def Let_def UNDEFINED_def)
  have f: "unat (rscd ?c) < 31" "unat (rwrd ?c) < 31" "unat (enwr ?c) < 31" "rwrd ?c \<noteq> UNDEFINED"
    "protocol ?c = 6800"
    by (simp_all add: lcd8_def UNDEFINED_def)
  have wp: "writeparallel (env_every 1000) xs s = None" if "curchip s = ?c" for xs s
    using that by (simp add: writeparallel_def Let_def d)
  have 8: "writedata (env_every 1000) ?c [0] power_on = None"
    by (simp add: writedata_entry[OF f(1)] wp)
  have 9: "writecommand (env_every 1000) ?c 0 power_on = None"
    by (simp add: writecommand_entry[OF f(1)] wp)
  have m: "sample_loop (data_pins ?c) r v s = None" for r v s
    unfolding dp by (simp add: shl1_def UNDEFINED_def)
  have H: "clock_advances (env_every 1000)" by (simp add: clock_every_advances)
  have rp: "read_phase (env_every 1000) clk j v s = None" if "curchip s = ?c" for clk j v s
    using that by (simp add: read_phase_def Let_def WAIT_wait_end[OF H] m)
  have rps: "read_phases (env_every 1000) clk (8 div bits_per_cycle ?c) v s = None"
    if "curchip s = ?c" for clk v s
    using that 3 by (simp add: rp)
  have g: "unat (rwrd lcd8) < 31" "unat (enwr lcd8) < 31" by (simp_all add: lcd8_def)
  have "readparallel (env_every 1000) (Suc 0) (data_entry ?c power_on) = None"
    by (simp add: readparallel_def Let_def f g or_set_Some or_clr_Some shl1_Some
        WAIT_wait_end[OF H] rps)
  then have 10: "readdata (env_every 1000) ?c 1 power_on = None"
    by (simp add: readdata_entry[OF f(1) f(4)])
  from 1 2 3 4 5 6 7 8 9 10 show ?thesis by blast
qed

text \<open>
  C10, amended. For every transfer (\<^verbatim>\<open>writedata\<close>, \<^verbatim>\<open>writecommand\<close>, \<^verbatim>\<open>readdata\<close>,
  \<^verbatim>\<open>readregister\<close>) on a descriptor that satisfies the descriptor invariant of the data
  model (\<^verbatim>\<open>d7..d4\<close>, \<^verbatim>\<open>rscd\<close> and \<^verbatim>\<open>enwr\<close> in [0, 27]; \<^verbatim>\<open>rwrd\<close> in [0, 27] or UNUSED;
  \<^verbatim>\<open>d3..d0\<close> all in [0, 27] or all UNUSED), under an advancing clock, the transfer
  returns and every shift amount of a \<^verbatim>\<open>1 << pin\<close> it evaluates, in \<^verbatim>\<open>readparallel\<close>,
  in \<^verbatim>\<open>writeparallel\<close> and in the mode selection before them, is at most 27; so the
  sentinel 0xFFFF is never a shift amount.
\<close>

theorem transfer_shift_amounts:
  assumes "clock_advances e" and "chip_inv c"
  shows "(\<exists>s'. writedata e c ds st = Some s' \<and>
            (\<forall>n\<in>set (drop (length (shifts st)) (shifts s')). n \<le> 27)) \<and>
         (\<exists>s'. writecommand e c x st = Some s' \<and>
            (\<forall>n\<in>set (drop (length (shifts st)) (shifts s')). n \<le> 27)) \<and>
         (\<exists>r vals s'. readdata e c datanum st = Some (r, vals, s') \<and>
            (\<forall>n\<in>set (drop (length (shifts st)) (shifts s')). n \<le> 27)) \<and>
         (\<exists>r s'. readregister e c st = Some (r, s') \<and>
            (\<forall>n\<in>set (drop (length (shifts st)) (shifts s')). n \<le> 27))"
proof -
  note pre = chip_inv_write_pre[OF assms(2)]
  note ctl = chip_inv_control[OF assms(2)]
  note dp = chip_inv_data_pins_unat[OF assms(2)]
  note ms = mode_shifts_le[OF assms(2)]
  have wr: "\<exists>s'. writeparallel e xs s = Some s' \<and>
            (\<forall>n\<in>set (drop (length (shifts st)) (shifts s')). n \<le> 27)"
    if "curchip s = c" "shifts s = shifts st @ mode_shifts c" for xs s
  proof -
    from writeparallel_run[of e s xs] assms(1) pre that(1)
    obtain s' where s': "writeparallel e xs s = Some s'"
      "shifts s' = shifts s @ [unat (enwr c)] @
        concat (replicate (length xs * (8 div bits_per_cycle c)) (map unat (data_pins c)))"
      by auto
    have "\<forall>n\<in>set (mode_shifts c @ [unat (enwr c)] @
        concat (replicate (length xs * (8 div bits_per_cycle c)) (map unat (data_pins c)))). n \<le> 27"
      using ms ctl dp by auto
    with s' that(2) show ?thesis by simp
  qed
  have rd: "\<exists>vals s'. readparallel e m s = Some (vals, s') \<and> length vals = m \<and>
            (\<forall>n\<in>set (drop (length (shifts st)) (shifts s')). n \<le> 27)"
    if "curchip s = c" "shifts s = shifts st @ mode_shifts c" "rwrd c \<noteq> UNDEFINED" for m s
  proof -
    note rp = chip_inv_read_pre[OF assms(2) that(3)]
    from readparallel_run[of e s m] assms(1) rp pre(2) that(1)
    obtain s' where s': "readparallel e m s = Some (bytes_values e c m (reads s), s')"
      "shifts s' = shifts s @
        (if protocol c = 6800 then [unat (rwrd c), unat (enwr c)]
         else if protocol c = 8080 then [unat (rwrd c)] else []) @
        concat (replicate (m * (8 div bits_per_cycle c)) (map unat (data_pins c))) @
        (if protocol c = 6800 then [unat (rwrd c)] else [])"
      by auto
    have "\<forall>n\<in>set (mode_shifts c @
        (if protocol c = 6800 then [unat (rwrd c), unat (enwr c)]
         else if protocol c = 8080 then [unat (rwrd c)] else []) @
        concat (replicate (m * (8 div bits_per_cycle c)) (map unat (data_pins c))) @
        (if protocol c = 6800 then [unat (rwrd c)] else [])). n \<le> 27"
      using ms ctl dp rp(3) by auto
    moreover have "length (bytes_values e c m r) = m" for r
      by (induction m arbitrary: r) simp_all
    ultimately show ?thesis using s' that(2) by simp
  qed
  have 1: "\<exists>s'. writedata e c ds st = Some s' \<and>
            (\<forall>n\<in>set (drop (length (shifts st)) (shifts s')). n \<le> 27)"
    using wr[of "data_entry c st" ds] by (simp add: writedata_entry[OF pre(3)])
  have 2: "\<exists>s'. writecommand e c x st = Some s' \<and>
            (\<forall>n\<in>set (drop (length (shifts st)) (shifts s')). n \<le> 27)"
    using wr[of "command_entry c st" "[x]"] by (simp add: writecommand_entry[OF pre(3)])
  have 3: "\<exists>r vals s'. readdata e c datanum st = Some (r, vals, s') \<and>
            (\<forall>n\<in>set (drop (length (shifts st)) (shifts s')). n \<le> 27)"
  proof (cases "rwrd c = UNDEFINED")
    case True
    then show ?thesis by (simp add: readdata_def Let_def)
  next
    case False
    from rd[of "data_entry c st" datanum] False show ?thesis
      by (auto simp: readdata_entry[OF pre(3) False])
  qed
  have 4: "\<exists>r s'. readregister e c st = Some (r, s') \<and>
            (\<forall>n\<in>set (drop (length (shifts st)) (shifts s')). n \<le> 27)"
  proof (cases "rwrd c = UNDEFINED")
    case True
    then show ?thesis by (simp add: readregister_def Let_def)
  next
    case False
    from rd[of "command_entry c st" 1] False
    obtain vals s' where v: "readparallel e 1 (command_entry c st) = Some (vals, s')"
      "length vals = 1" "\<forall>n\<in>set (drop (length (shifts st)) (shifts s')). n \<le> 27" by auto
    from v(2) obtain d where "vals = [d]" by (cases vals) auto
    with v show ?thesis by (simp add: readregister_entry[OF pre(3) False])
  qed
  from 1 2 3 4 show ?thesis by blast
qed

theorem transfer_shift_amounts_witness:
  "clock_advances (env_every 1000) \<and> chip_inv lcd4 \<and>
   (\<exists>s'. writedata (env_every 1000) lcd4 [0x3C] power_on = Some s' \<and>
      (\<forall>n\<in>set (shifts s'). n \<le> 27))"
proof -
  have H: "clock_advances (env_every 1000)" by (simp add: clock_every_advances)
  have inv: "chip_inv lcd4" by (simp add: chip_inv_def lcd4_def lcd8_def)
  from transfer_shift_amounts[OF H inv, of "[0x3C]" power_on, THEN conjunct1]
  have "\<exists>s'. writedata (env_every 1000) lcd4 [0x3C] power_on = Some s' \<and>
      (\<forall>n\<in>set (shifts s'). n \<le> 27)"
    by (simp add: power_on_def)
  with H inv show ?thesis by simp
qed

end
